theory Spec2Isabelle
  imports Main
begin

section \<open>Arrays, failures and counted loops\<close>

text \<open>
  The C code works on heap arrays of \<open>int\<close>.  An array obtained from \<open>malloc\<close> is a list of
  cells that hold nothing until they are written; \<open>calloc\<close> and \<open>memset\<close> give every cell a value.
  A read outside the allocation or of a cell never written is undefined behaviour in C and is a
  failure of the model.  C's \<open>int\<close> is modelled by \<open>int\<close>: the analysis only counts rows and
  columns of the matrix, and arithmetic overflow is not modelled.
\<close>

datatype error =
    OutOfBounds
  | Uninitialised
  | OutOfMemory
  | Diverges
  | AssertEmptyColumn
  | AssertRowSize
  | AssertVertex
  | AssertCoverage
  | AssertNoRoot
  | AssertSize
  | AssertCleared
  | AssertBlockPresent
  | NullPointer

type_synonym arr = "int option list"

definition NONE :: int where
  "NONE = -1"

definition bnd :: "error + 'a \<Rightarrow> ('a \<Rightarrow> error + 'b) \<Rightarrow> error + 'b" where
  "bnd m f = (case m of Inl e \<Rightarrow> Inl e | Inr x \<Rightarrow> f x)"

definition rd :: "arr \<Rightarrow> int \<Rightarrow> error + int" where
  "rd a i =
     (if 0 \<le> i \<and> i < int (length a)
      then (case a ! nat i of None \<Rightarrow> Inl Uninitialised | Some v \<Rightarrow> Inr v)
      else Inl OutOfBounds)"

definition wr :: "arr \<Rightarrow> int \<Rightarrow> int \<Rightarrow> error + arr" where
  "wr a i v =
     (if 0 \<le> i \<and> i < int (length a) then Inr (a[nat i := Some v]) else Inl OutOfBounds)"

definition malloc :: "int \<Rightarrow> arr" where
  "malloc k = replicate (nat k) None"

definition filled :: "int \<Rightarrow> int \<Rightarrow> arr" where
  "filled k v = replicate (nat k) (Some v)"

definition calloc :: "int \<Rightarrow> arr" where
  "calloc k = filled k 0"

definition from_list :: "int list \<Rightarrow> arr" where
  "from_list xs = map Some xs"

text \<open>\<open>memset\<close> of the first \<open>k\<close> cells of an array (with a byte pattern that gives \<open>v\<close> in every
  \<open>int\<close>: 0 or -1 in the source).\<close>

definition memset :: "arr \<Rightarrow> int \<Rightarrow> int \<Rightarrow> error + arr" where
  "memset a v k =
     (if k \<le> int (length a) then Inr (replicate (nat k) (Some v) @ drop (nat k) a)
      else Inl OutOfBounds)"

text \<open>\<open>for (i = lo; i < hi; i++) body\<close>, where the body does not change the bounds.\<close>

function for_loop :: "int \<Rightarrow> int \<Rightarrow> (int \<Rightarrow> 's \<Rightarrow> error + 's) \<Rightarrow> 's \<Rightarrow> error + 's" where
  "for_loop i hi body s =
     (if i < hi
      then (case body i s of Inl e \<Rightarrow> Inl e | Inr s' \<Rightarrow> for_loop (i + 1) hi body s')
      else Inr s)"
  by pat_completeness auto
termination
  by (relation "measure (\<lambda>(i, hi, body, s). nat (hi - i))") auto

declare for_loop.simps [simp del]

text \<open>\<open>for (i = hi; i >= lo; i--) body\<close>.\<close>

function for_down :: "int \<Rightarrow> int \<Rightarrow> (int \<Rightarrow> 's \<Rightarrow> error + 's) \<Rightarrow> 's \<Rightarrow> error + 's" where
  "for_down i lo body s =
     (if lo \<le> i
      then (case body i s of Inl e \<Rightarrow> Inl e | Inr s' \<Rightarrow> for_down (i - 1) lo body s')
      else Inr s)"
  by pat_completeness auto
termination
  by (relation "measure (\<lambda>(i, lo, body, s). nat (i + 1 - lo))") auto

declare for_down.simps [simp del]

section \<open>Symbolic data\<close>

text \<open>\<open>struct taucs_multilu_etree_st\<close> and \<open>struct taucs_multilu_symbolic_st\<close>.\<close>

record multilu_etree =
  first_root :: int
  parent :: arr
  first_child :: arr
  next_child :: arr
  first_desc_index :: arr
  last_desc_index :: arr

record multilu_symbolic =
  sym_n :: int
  columns :: arr
  number_supercolumns :: int
  start_supercolumn :: arr
  end_supercolumn :: arr
  supercolumn_size :: arr
  supercolumn_covered_columns :: arr
  l_size :: arr
  u_size :: arr
  etree :: multilu_etree

text \<open>\<open>allocate_symbolic\<close>: every array has \<open>n + 1\<close> cells, none of them written.\<close>

definition allocate_symbolic :: "int \<Rightarrow> multilu_symbolic" where
  "allocate_symbolic n =
     \<lparr> sym_n = n,
       columns = malloc (n + 1),
       number_supercolumns = 0,
       start_supercolumn = malloc (n + 1),
       end_supercolumn = malloc (n + 1),
       supercolumn_size = malloc (n + 1),
       supercolumn_covered_columns = malloc (n + 1),
       l_size = malloc (n + 1),
       u_size = malloc (n + 1),
       etree = \<lparr> first_root = NONE,
                 parent = malloc (n + 1),
                 first_child = malloc (n + 1),
                 next_child = malloc (n + 1),
                 first_desc_index = malloc (n + 1),
                 last_desc_index = malloc (n + 1) \<rparr> \<rparr>"

section \<open>complete\_symbolic\<close>

text \<open>The loop that fills \<open>start_supercolumn\<close> and \<open>end_supercolumn\<close> from index 1 on.\<close>

definition cs_range_step :: "arr \<Rightarrow> int \<Rightarrow> arr \<times> arr \<Rightarrow> error + arr \<times> arr" where
  "cs_range_step sc_size i se =
     (case se of (st, en) \<Rightarrow>
        bnd (rd en (i - 1)) (\<lambda>e1.
        bnd (wr st i (e1 + 1)) (\<lambda>st'.
        bnd (rd st' i) (\<lambda>s1.
        bnd (rd sc_size i) (\<lambda>z.
        bnd (wr en i (s1 + z - 1)) (\<lambda>en'.
        Inr (st', en')))))))"

definition cs_ranges :: "int \<Rightarrow> int \<Rightarrow> arr \<Rightarrow> arr \<times> arr \<Rightarrow> error + arr \<times> arr" where
  "cs_ranges n s sc_size se =
     (case se of (st, en) \<Rightarrow>
        bnd (wr st 0 0) (\<lambda>st0.
        bnd (rd sc_size 0) (\<lambda>z0.
        bnd (wr en 0 (z0 - 1)) (\<lambda>en0.
        bnd (for_loop 1 s (cs_range_step sc_size) (st0, en0)) (\<lambda>se'.
        bnd (rd (snd se') (s - 1)) (\<lambda>last.
        if last = n - 1 then Inr se' else Inl AssertCoverage))))))"

text \<open>Initialisation of the supercolumn elimination tree.\<close>

definition cs_init_step :: "int \<Rightarrow> arr \<times> arr \<times> arr \<times> arr \<Rightarrow> error + arr \<times> arr \<times> arr \<times> arr" where
  "cs_init_step i t =
     (case t of (fc, nc, fd, ld) \<Rightarrow>
        bnd (wr fc i NONE) (\<lambda>fc'.
        bnd (wr nc i NONE) (\<lambda>nc'.
        bnd (wr fd i NONE) (\<lambda>fd'.
        bnd (wr ld i NONE) (\<lambda>ld'.
        Inr (fc', nc', fd', ld'))))))"

text \<open>Child lists and the list of roots.\<close>

definition cs_child_step :: "arr \<Rightarrow> int \<Rightarrow> int \<times> arr \<times> arr \<Rightarrow> error + int \<times> arr \<times> arr" where
  "cs_child_step par i t =
     (case t of (froot, fc, nc) \<Rightarrow>
        bnd (rd par i) (\<lambda>p.
        if p = NONE
        then bnd (wr nc i froot) (\<lambda>nc'. Inr (i, fc, nc'))
        else bnd (rd fc p) (\<lambda>f.
             bnd (wr nc i f) (\<lambda>nc'.
             bnd (wr fc p i) (\<lambda>fc'.
             Inr (froot, fc', nc'))))))"

text \<open>The descendant ranges: one pass in index order, each supercolumn updating its parent.\<close>

definition cs_desc_step :: "arr \<Rightarrow> int \<Rightarrow> arr \<times> arr \<Rightarrow> error + arr \<times> arr" where
  "cs_desc_step par i t =
     (case t of (fd, ld) \<Rightarrow>
        bnd (rd par i) (\<lambda>p.
        bnd (rd fd i) (\<lambda>fdi.
        bnd (if fdi \<noteq> NONE then wr ld i (i - 1) else Inr ld) (\<lambda>ld'.
        if p \<noteq> NONE
        then bnd (rd fd p) (\<lambda>fdp.
             bnd (if fdp = NONE \<and> fdi = NONE then wr fd p i else Inr fd) (\<lambda>fd1.
             bnd (rd fd1 p) (\<lambda>fdp1.
             bnd (rd fd1 i) (\<lambda>fdi1.
             bnd (if fdp1 = NONE \<and> fdi1 \<noteq> NONE then wr fd1 p fdi1 else Inr fd1) (\<lambda>fd2.
             Inr (fd2, ld'))))))
        else Inr (fd, ld')))))"

text \<open>Covered columns, accumulated bottom-up.\<close>

definition cs_cover_step :: "arr \<Rightarrow> arr \<Rightarrow> int \<Rightarrow> arr \<Rightarrow> error + arr" where
  "cs_cover_step par sc_size i cov =
     bnd (rd par i) (\<lambda>p.
     bnd (rd cov i) (\<lambda>c0.
     bnd (rd sc_size i) (\<lambda>z.
     bnd (wr cov i (c0 + z)) (\<lambda>cov1.
     if p \<noteq> NONE
     then bnd (rd cov1 p) (\<lambda>cp.
          bnd (rd cov1 i) (\<lambda>ci.
          wr cov1 p (cp + ci)))
     else Inr cov1))))"

definition complete_symbolic :: "multilu_symbolic \<Rightarrow> error + multilu_symbolic" where
  "complete_symbolic symbolic =
     (let s = number_supercolumns symbolic;
          et = etree symbolic;
          par = parent et
      in
        bnd (cs_ranges (sym_n symbolic) s (supercolumn_size symbolic)
               (start_supercolumn symbolic, end_supercolumn symbolic)) (\<lambda>(st, en).
        bnd (for_loop 0 s cs_init_step
               (first_child et, next_child et, first_desc_index et, last_desc_index et))
            (\<lambda>(fc0, nc0, fd0, ld0).
        bnd (for_loop 0 s (cs_child_step par) (NONE, fc0, nc0)) (\<lambda>(froot, fc, nc).
        bnd (for_loop 0 s (cs_desc_step par) (fd0, ld0)) (\<lambda>(fd, ld).
        bnd (memset (supercolumn_covered_columns symbolic) 0 s) (\<lambda>cov0.
        bnd (for_loop 0 s (cs_cover_step par (supercolumn_size symbolic)) cov0) (\<lambda>cov.
        Inr (symbolic
              \<lparr> start_supercolumn := st,
                end_supercolumn := en,
                supercolumn_covered_columns := cov,
                etree := et \<lparr> first_root := froot,
                              first_child := fc,
                              next_child := nc,
                              first_desc_index := fd,
                              last_desc_index := ld \<rparr> \<rparr>))))))))"

section \<open>Union-find\<close>

text \<open>
  The source is compiled without \<open>_UF_UNION_BY_RANK\<close>: a set node is its parent index.
  \<open>uf_find\<close> recurses along the parent chain and compresses it on the way back.  A chain of
  in-range nodes longer than the array repeats a node, and on such a cycle the C function never
  returns; the recursion of the model is cut exactly there.
\<close>

definition uf_make_sets :: "int \<Rightarrow> error + arr" where
  "uf_make_sets sets_num = for_loop 0 sets_num (\<lambda>i sets. wr sets i i) (malloc sets_num)"

definition uf_union :: "arr \<Rightarrow> int \<Rightarrow> int \<Rightarrow> error + arr \<times> int" where
  "uf_union sets x y = bnd (wr sets x y) (\<lambda>sets'. Inr (sets', y))"

fun uf_find_rec :: "nat \<Rightarrow> arr \<Rightarrow> int \<Rightarrow> error + arr \<times> int" where
  "uf_find_rec 0 sets x = Inl Diverges"
| "uf_find_rec (Suc k) sets x =
     bnd (rd sets x) (\<lambda>p.
     if x \<noteq> p
     then bnd (uf_find_rec k sets p) (\<lambda>(sets1, r).
          bnd (wr sets1 x r) (\<lambda>sets2.
          bnd (rd sets2 x) (\<lambda>v. Inr (sets2, v))))
     else Inr (sets, p))"

definition uf_find :: "arr \<Rightarrow> int \<Rightarrow> error + arr \<times> int" where
  "uf_find sets x = uf_find_rec (Suc (length sets)) sets x"

section \<open>The input matrix\<close>

text \<open>
  Modelled from the spec: the compressed-column matrix type \<open>taucs_ccs_matrix\<close> is declared in
  a header that is not part of the file.  Column \<open>j\<close> has its row indices in
  \<open>rowind[colptr[j] .. colptr[j+1])\<close> and its values at the same positions.
\<close>

record 'a ccs_matrix =
  ccs_m :: int
  ccs_n :: int
  colptr :: arr
  rowind :: arr
  taucs_values :: "'a list"

section \<open>Compile-time parameters\<close>

definition MULTILU_MAX_SUPERCOL_SIZE :: int where
  "MULTILU_MAX_SUPERCOL_SIZE = -1"

definition MULTILU_MAX_OVERFILL_RATIO :: int where
  "MULTILU_MAX_OVERFILL_RATIO = 2"

definition MULTILU_RELAX_RULE_SIZE :: int where
  "MULTILU_RELAX_RULE_SIZE = 20"

definition MULTILU_EAN_BUFFER :: int where
  "MULTILU_EAN_BUFFER = 2"

section \<open>detect\_supercol\<close>

record ds_state =
  ds_firstcol :: arr
  ds_root :: arr
  ds_sets :: arr
  ds_map_col_supercol :: arr
  ds_lastcol :: arr
  ds_sc_size :: arr
  ds_sc_parent :: arr
  ds_fsc_num :: int
  ds_cset :: int
  ds_max_lsize :: int
  ds_max_usize :: int
  ds_sc_lsize :: int
  ds_sc_usize :: int

text \<open>One nonzero of the current column: the body of the inner loop.\<close>

definition ds_nz_step :: "int \<Rightarrow> arr \<Rightarrow> int \<Rightarrow> int \<Rightarrow> int \<Rightarrow> ds_state \<Rightarrow> error + ds_state" where
  "ds_nz_step a_n a_rowind base col i st =
     bnd (rd a_rowind (base + i)) (\<lambda>row.
     bnd (rd (ds_firstcol st) row) (\<lambda>fcol.
     if fcol = a_n
     then bnd (wr (ds_firstcol st) row col) (\<lambda>fc'. Inr (st \<lparr> ds_firstcol := fc' \<rparr>))
     else bnd (uf_find (ds_sets st) fcol) (\<lambda>(sets1, rset).
          bnd (rd (ds_root st) rset) (\<lambda>rroot.
          if rroot \<noteq> col
          then bnd (rd (ds_map_col_supercol st) rroot) (\<lambda>f.
               bnd (wr (ds_sc_parent st) f col) (\<lambda>scp'.
               bnd (uf_union sets1 (ds_cset st) rset) (\<lambda>(sets2, cset').
               bnd (wr (ds_root st) cset' col) (\<lambda>root'.
               Inr (st \<lparr> ds_sets := sets2, ds_sc_parent := scp', ds_cset := cset',
                         ds_root := root' \<rparr>)))))
          else Inr (st \<lparr> ds_sets := sets1 \<rparr>)))))"

text \<open>The test that breaks a chain of one-child columns when the fill bound would be exceeded.\<close>

definition ds_chain_check ::
    "arr \<Rightarrow> arr \<Rightarrow> arr \<Rightarrow> int \<Rightarrow> ds_state \<Rightarrow> error + bool \<times> ds_state" where
  "ds_chain_check lsz usz postorder col st =
     bnd (rd (ds_sc_size st) (ds_fsc_num st)) (\<lambda>cur.
     bnd (rd postorder col) (\<lambda>pc.
     bnd (rd lsz pc) (\<lambda>l.
     bnd (rd usz pc) (\<lambda>u.
     let inc_sc_size = cur + 1;
         max_l = ds_max_lsize st + l;
         max_u = ds_max_usize st + u;
         sc_l = max (ds_sc_lsize st) (l + cur);
         sc_u = max (ds_sc_usize st) (u + cur)
     in Inr (sc_l * inc_sc_size > MULTILU_MAX_OVERFILL_RATIO * max_l
             \<or> sc_u * inc_sc_size > MULTILU_MAX_OVERFILL_RATIO * max_u,
             st \<lparr> ds_max_lsize := max_l, ds_max_usize := max_u,
                  ds_sc_lsize := sc_l, ds_sc_usize := sc_u \<rparr>)))))"

text \<open>Opening a new supercolumn at the column, or appending the column to the current one.\<close>

definition ds_close_step ::
    "arr \<Rightarrow> arr \<Rightarrow> arr \<Rightarrow> int \<Rightarrow> bool \<Rightarrow> ds_state \<Rightarrow> error + ds_state" where
  "ds_close_step lsz usz postorder col new_supercol st =
     (if new_supercol
      then (let f = ds_fsc_num st + 1 in
            bnd (wr (ds_sc_size st) f 1) (\<lambda>scs.
            bnd (wr (ds_lastcol st) f col) (\<lambda>lc.
            bnd (wr (ds_map_col_supercol st) col f) (\<lambda>mp.
            bnd (rd postorder col) (\<lambda>pc.
            bnd (rd lsz pc) (\<lambda>l.
            bnd (rd usz pc) (\<lambda>u.
            Inr (st \<lparr> ds_fsc_num := f, ds_sc_size := scs, ds_lastcol := lc,
                      ds_map_col_supercol := mp,
                      ds_max_lsize := l, ds_max_usize := u,
                      ds_sc_lsize := l, ds_sc_usize := u \<rparr>))))))))
      else (let f = ds_fsc_num st in
            bnd (rd (ds_sc_size st) f) (\<lambda>cur.
            bnd (wr (ds_sc_size st) f (cur + 1)) (\<lambda>scs.
            bnd (wr (ds_lastcol st) f col) (\<lambda>lc.
            bnd (wr (ds_map_col_supercol st) col f) (\<lambda>mp.
            Inr (st \<lparr> ds_sc_size := scs, ds_lastcol := lc,
                      ds_map_col_supercol := mp \<rparr>)))))))"

text \<open>One column: the body of the outer loop.\<close>

definition ds_col_step ::
    "'a ccs_matrix \<Rightarrow> arr \<Rightarrow> arr \<Rightarrow> arr \<Rightarrow> arr \<Rightarrow> arr \<Rightarrow> int \<Rightarrow> ds_state \<Rightarrow> error + ds_state" where
  "ds_col_step A column_order one_child lsz usz postorder col st =
     bnd (rd column_order col) (\<lambda>org_col.
     bnd (rd one_child col) (\<lambda>oc.
     bnd (if oc = 0 then Inr True
          else bnd (rd (ds_sc_size st) (ds_fsc_num st))
                 (\<lambda>z. Inr (z = MULTILU_MAX_SUPERCOL_SIZE))) (\<lambda>new0.
     bnd (rd (colptr A) (org_col + 1)) (\<lambda>c1.
     bnd (rd (colptr A) org_col) (\<lambda>c0.
     bnd (wr (ds_root st) col col) (\<lambda>root'.
     bnd (for_loop 0 (c1 - c0) (ds_nz_step (ccs_n A) (rowind A) c0 col)
            (st \<lparr> ds_cset := col, ds_root := root' \<rparr>)) (\<lambda>st1.
     bnd (if \<not> new0 then ds_chain_check lsz usz postorder col st1 else Inr (new0, st1))
       (\<lambda>(new_supercol, st2).
     ds_close_step lsz usz postorder col new_supercol st2))))))))"

text \<open>Mapping the parents from columns to supercolumns; a supercolumn that is its own parent
  is a root.\<close>

definition ds_fix_parent_step :: "arr \<Rightarrow> int \<Rightarrow> arr \<Rightarrow> error + arr" where
  "ds_fix_parent_step map_col_supercol i sc_parent =
     bnd (rd sc_parent i) (\<lambda>p.
     bnd (if p \<noteq> NONE
          then bnd (rd map_col_supercol p) (\<lambda>f. wr sc_parent i f)
          else Inr sc_parent) (\<lambda>scp1.
     bnd (rd scp1 i) (\<lambda>p1.
     if p1 = i then wr scp1 i NONE else Inr scp1)))"

text \<open>The relaxation pass.  \<open>map_fsc_rsc\<close> is the array \<open>map_col_supercol\<close> itself, reused.\<close>

record relax_state =
  rx_sc_num :: int
  rx_cscs :: int
  rx_map_fsc_rsc :: arr
  rx_lastcol :: arr
  rx_sc_size :: arr

definition ds_relax_step :: "arr \<Rightarrow> arr \<Rightarrow> int \<Rightarrow> relax_state \<Rightarrow> error + relax_state" where
  "ds_relax_step sc_parent desc_count i st =
     bnd (rd (rx_sc_size st) i) (\<lambda>z.
     bnd (wr (rx_map_fsc_rsc st) i (rx_sc_num st)) (\<lambda>mp.
     bnd (wr (rx_lastcol st) (rx_sc_num st) i) (\<lambda>lc.
     bnd (rd sc_parent i) (\<lambda>p.
     bnd (if p \<noteq> NONE
          then bnd (rd lc p) (\<lambda>last_of_parent.
               bnd (rd desc_count last_of_parent) (\<lambda>d.
               Inr (d \<ge> MULTILU_RELAX_RULE_SIZE)))
          else Inr False) (\<lambda>close_here.
     let cscs = rx_cscs st + z;
         st1 = st \<lparr> rx_map_fsc_rsc := mp, rx_lastcol := lc \<rparr>
     in if close_here
        then bnd (wr (rx_sc_size st) (rx_sc_num st) cscs) (\<lambda>scs.
             Inr (st1 \<lparr> rx_sc_size := scs, rx_cscs := 0, rx_sc_num := rx_sc_num st + 1 \<rparr>))
        else Inr (st1 \<lparr> rx_cscs := cscs \<rparr>))))))"

definition ds_relax :: "arr \<Rightarrow> arr \<Rightarrow> int \<Rightarrow> arr \<Rightarrow> arr \<Rightarrow> arr \<Rightarrow> error + relax_state" where
  "ds_relax sc_parent desc_count fsc_num map_col_supercol lastcol sc_size =
     bnd (for_loop 0 fsc_num (ds_relax_step sc_parent desc_count)
            \<lparr> rx_sc_num = 0, rx_cscs = 0, rx_map_fsc_rsc = map_col_supercol,
              rx_lastcol = lastcol, rx_sc_size = sc_size \<rparr>) (\<lambda>st.
     bnd (wr (rx_sc_size st) (rx_sc_num st) (rx_cscs st)) (\<lambda>scs.
     Inr (st \<lparr> rx_sc_size := scs, rx_sc_num := rx_sc_num st + 1 \<rparr>)))"

definition ds_relax_parent_step :: "arr \<Rightarrow> arr \<Rightarrow> int \<Rightarrow> arr \<Rightarrow> error + arr" where
  "ds_relax_parent_step lastcol map_fsc_rsc i sc_parent =
     bnd (rd lastcol i) (\<lambda>lc.
     bnd (rd sc_parent lc) (\<lambda>org_parent.
     if org_parent \<noteq> NONE
     then bnd (rd map_fsc_rsc org_parent) (\<lambda>r. wr sc_parent i r)
     else wr sc_parent i NONE))"

definition ds_init :: "'a ccs_matrix \<Rightarrow> arr \<Rightarrow> arr \<Rightarrow> error + ds_state" where
  "ds_init A sc_size sc_parent =
     bnd (uf_make_sets (ccs_n A)) (\<lambda>sets.
     bnd (memset sc_size 0 (ccs_n A)) (\<lambda>scs.
     bnd (for_loop 0 (ccs_n A) (\<lambda>i p. wr p i NONE) sc_parent) (\<lambda>scp.
     Inr \<lparr> ds_firstcol = filled (ccs_m A) (ccs_n A),
           ds_root = malloc (ccs_n A),
           ds_sets = sets,
           ds_map_col_supercol = malloc (ccs_n A),
           ds_lastcol = malloc (ccs_n A),
           ds_sc_size = scs,
           ds_sc_parent = scp,
           ds_fsc_num = -1,
           ds_cset = 0,
           ds_max_lsize = 0, ds_max_usize = 0,
           ds_sc_lsize = 0, ds_sc_usize = 0 \<rparr>)))"

text \<open>
  \<open>detect_supercol\<close>.  The first argument says whether the five work arrays could be
  allocated.  The result is \<open>*sc_num\<close> with the final \<open>sc_size\<close> and \<open>sc_parent\<close>.
\<close>

definition detect_supercol ::
    "bool \<Rightarrow> 'a ccs_matrix \<Rightarrow> arr \<Rightarrow> arr \<Rightarrow> arr \<Rightarrow> arr \<Rightarrow> arr \<Rightarrow> arr \<Rightarrow> arr \<Rightarrow> arr
       \<Rightarrow> error + int \<times> arr \<times> arr" where
  "detect_supercol mem A column_order one_child desc_count lsz usz postorder sc_size sc_parent =
     (if \<not> mem then Inl OutOfMemory
      else
        bnd (ds_init A sc_size sc_parent) (\<lambda>st0.
        bnd (for_loop 0 (ccs_n A) (ds_col_step A column_order one_child lsz usz postorder) st0)
          (\<lambda>st1.
        let fsc_num = ds_fsc_num st1 + 1 in
        bnd (for_loop 0 fsc_num (ds_fix_parent_step (ds_map_col_supercol st1))
               (ds_sc_parent st1)) (\<lambda>scp1.
        bnd (ds_relax scp1 desc_count fsc_num (ds_map_col_supercol st1) (ds_lastcol st1)
               (ds_sc_size st1)) (\<lambda>rx.
        bnd (for_loop 0 (rx_sc_num rx)
               (ds_relax_parent_step (rx_lastcol rx) (rx_map_fsc_rsc rx)) scp1) (\<lambda>scp2.
        Inr (rx_sc_num rx, rx_sc_size rx, scp2)))))))"

section \<open>garbage\_collect\<close>

text \<open>
  \<open>memcpy\<close> inside one array.  In \<open>garbage_collect\<close> the destination never lies above the
  source, where the forward copy reads every cell before it is overwritten.
\<close>

definition memcpy_within :: "arr \<Rightarrow> int \<Rightarrow> int \<Rightarrow> int \<Rightarrow> error + arr" where
  "memcpy_within ws dst src k =
     (if k = 0 then Inr ws
      else if 0 < k \<and> 0 \<le> dst \<and> 0 \<le> src \<and> src + k \<le> int (length ws)
              \<and> dst + k \<le> int (length ws)
      then Inr (take (nat dst) ws @ take (nat k) (drop (nat src) ws) @ drop (nat (dst + k)) ws)
      else Inl OutOfBounds)"

text \<open>The live elements as \<open>(el_start, el_number)\<close>, in index order.\<close>

definition gc_live_step ::
    "arr \<Rightarrow> arr \<Rightarrow> int \<Rightarrow> (int \<times> int) list \<Rightarrow> error + (int \<times> int) list" where
  "gc_live_step el_start el_cleared i el_loc =
     bnd (rd el_cleared i) (\<lambda>c.
     if c = 0 then bnd (rd el_start i) (\<lambda>s. Inr (el_loc @ [(s, i)])) else Inr el_loc)"

text \<open>Moving the elements to the front, in the order of their old start.\<close>

fun gc_defragment ::
    "arr \<Rightarrow> (int \<times> int) list \<Rightarrow> arr \<times> int \<times> (int \<times> int) list
       \<Rightarrow> error + arr \<times> int \<times> (int \<times> int) list" where
  "gc_defragment el_size [] t = Inr t"
| "gc_defragment el_size ((start, number) # rest) (ws, loc, moved) =
     bnd (rd el_size number) (\<lambda>z.
     bnd (memcpy_within ws loc start z) (\<lambda>ws'.
     gc_defragment el_size rest (ws', loc + z, moved @ [(loc, number)])))"

fun gc_correct :: "(int \<times> int) list \<Rightarrow> arr \<Rightarrow> error + arr" where
  "gc_correct [] el_start = Inr el_start"
| "gc_correct ((start, number) # rest) el_start =
     bnd (wr el_start number start) (gc_correct rest)"

text \<open>
  \<open>garbage_collect\<close> returns the new free position with the compacted workspace and the
  corrected starts.  Its own allocation is not checked in the source: when it fails the function
  writes through a null pointer.  \<open>qsort\<close> leaves the order of equal starts open; the model
  keeps them in index order.
\<close>

definition garbage_collect ::
    "bool \<Rightarrow> arr \<Rightarrow> arr \<Rightarrow> arr \<Rightarrow> arr \<Rightarrow> int \<Rightarrow> error + int \<times> arr \<times> arr" where
  "garbage_collect mem workspace el_start el_size el_cleared el_num =
     (if \<not> mem then Inl NullPointer
      else
        bnd (for_loop 0 el_num (gc_live_step el_start el_cleared) []) (\<lambda>el_loc.
        bnd (gc_defragment el_size (sort_key fst el_loc) (workspace, 0, [])) (\<lambda>(ws, loc, moved).
        bnd (gc_correct moved el_start) (\<lambda>el_start'.
        Inr (loc, ws, el_start')))))"

section \<open>elimination\_analysis\<close>

record ea_state =
  ea_firstcol :: arr
  ea_root :: arr
  ea_rdegs :: arr
  ea_rnums :: arr
  ea_sets :: arr
  ea_col_cleared :: arr
  ea_row_cleared :: arr
  ea_col_mmb :: arr
  ea_row_workspace :: arr
  ea_rows_start :: arr
  ea_rows_size :: arr
  ea_parent :: arr
  ea_l_size :: arr
  ea_u_size :: arr
  ea_next_row :: int
  ea_row_start :: int
  ea_row_size :: int
  ea_cset :: int

text \<open>Counting the entries of every row, and the start of every row in the workspace.\<close>

definition ea_count_step :: "arr \<Rightarrow> int \<Rightarrow> arr \<Rightarrow> error + arr" where
  "ea_count_step a_rowind i rows_size =
     bnd (rd a_rowind i) (\<lambda>r.
     bnd (rd rows_size r) (\<lambda>z. wr rows_size r (z + 1)))"

definition ea_start_step :: "arr \<Rightarrow> int \<Rightarrow> arr \<Rightarrow> error + arr" where
  "ea_start_step rows_size i rows_start =
     bnd (rd rows_start (i - 1)) (\<lambda>s.
     bnd (rd rows_size (i - 1)) (\<lambda>z. wr rows_start i (s + z)))"

text \<open>Writing the row patterns (the columns of every row) into the workspace.\<close>

definition ea_fill_step ::
    "arr \<Rightarrow> arr \<Rightarrow> int \<Rightarrow> int \<Rightarrow> arr \<times> arr \<Rightarrow> error + arr \<times> arr" where
  "ea_fill_step a_rowind rows_start i j t =
     (case t of (ws, rows_size) \<Rightarrow>
        bnd (rd a_rowind j) (\<lambda>row.
        bnd (rd rows_start row) (\<lambda>s.
        bnd (rd rows_size row) (\<lambda>z.
        bnd (wr ws (s + z) i) (\<lambda>ws'.
        bnd (rd rows_size row) (\<lambda>z1.
        bnd (wr rows_size row (z1 + 1)) (\<lambda>rows_size'.
        Inr (ws', rows_size'))))))))"

definition ea_fill_col :: "'a ccs_matrix \<Rightarrow> arr \<Rightarrow> int \<Rightarrow> arr \<times> arr \<Rightarrow> error + arr \<times> arr" where
  "ea_fill_col A rows_start i t =
     bnd (rd (colptr A) i) (\<lambda>c0.
     bnd (rd (colptr A) (i + 1)) (\<lambda>c1.
     for_loop c0 c1 (ea_fill_step (rowind A) rows_start i) t))"

definition ea_init :: "'a ccs_matrix \<Rightarrow> arr \<Rightarrow> arr \<Rightarrow> arr \<Rightarrow> error + ea_state" where
  "ea_init A par lsz usz =
     bnd (uf_make_sets (ccs_n A)) (\<lambda>sets.
     bnd (rd (colptr A) (ccs_n A)) (\<lambda>nnz.
     bnd (for_loop 0 nnz (ea_count_step (rowind A)) (calloc (ccs_m A))) (\<lambda>rows_size0.
     bnd (wr (malloc (ccs_m A)) 0 0) (\<lambda>rows_start0.
     bnd (for_loop 1 (ccs_m A) (ea_start_step rows_size0) rows_start0) (\<lambda>rows_start.
     bnd (memset rows_size0 0 (ccs_m A)) (\<lambda>rows_size1.
     bnd (for_loop 0 (ccs_n A) (ea_fill_col A rows_start)
            (malloc (nnz + MULTILU_EAN_BUFFER * ccs_n A), rows_size1)) (\<lambda>(ws, rows_size).
     Inr \<lparr> ea_firstcol = filled (ccs_m A) (ccs_n A),
           ea_root = malloc (ccs_n A),
           ea_rdegs = malloc (ccs_n A),
           ea_rnums = malloc (ccs_n A),
           ea_sets = sets,
           ea_col_cleared = calloc (ccs_n A),
           ea_row_cleared = calloc (ccs_m A),
           ea_col_mmb = calloc (ccs_n A),
           ea_row_workspace = ws,
           ea_rows_start = rows_start,
           ea_rows_size = rows_size,
           ea_parent = par,
           ea_l_size = lsz,
           ea_u_size = usz,
           ea_next_row = nnz,
           ea_row_start = 0,
           ea_row_size = 0,
           ea_cset = 0 \<rparr>)))))))"

text \<open>
  Appending one entry of an old row pattern to the row under construction, unless its column is
  eliminated or already a member.  The same loop body serves a fresh row and a merged one.
\<close>

definition ea_merge_step :: "int \<Rightarrow> int \<Rightarrow> ea_state \<Rightarrow> error + ea_state" where
  "ea_merge_step start j st =
     bnd (rd (ea_row_workspace st) (start + j)) (\<lambda>c.
     bnd (rd (ea_col_cleared st) c) (\<lambda>cleared.
     bnd (if cleared = 0 then rd (ea_col_mmb st) c else Inr 1) (\<lambda>mmb.
     if cleared = 0 \<and> mmb = 0
     then bnd (wr (ea_row_workspace st) (ea_row_start st + ea_row_size st) c) (\<lambda>ws'.
          bnd (wr (ea_col_mmb st) c 1) (\<lambda>mmb'.
          Inr (st \<lparr> ea_row_workspace := ws', ea_col_mmb := mmb',
                    ea_row_size := ea_row_size st + 1 \<rparr>)))
     else Inr st)))"

definition ea_merge_row :: "int \<Rightarrow> ea_state \<Rightarrow> error + ea_state" where
  "ea_merge_row r st =
     bnd (rd (ea_rows_size st) r) (\<lambda>z.
     bnd (if 0 < z then rd (ea_rows_start st) r else Inr 0) (\<lambda>start.
     bnd (for_loop 0 z (ea_merge_step start) st) (\<lambda>st1.
     bnd (wr (ea_row_cleared st1) r 1) (\<lambda>rc.
     Inr (st1 \<lparr> ea_row_cleared := rc \<rparr>)))))"

text \<open>One nonzero of the pivot column.\<close>

definition ea_nz_step :: "int \<Rightarrow> arr \<Rightarrow> int \<Rightarrow> int \<Rightarrow> int \<Rightarrow> ea_state \<Rightarrow> error + ea_state" where
  "ea_nz_step a_n a_rowind base col i st =
     bnd (rd a_rowind (base + i)) (\<lambda>row.
     bnd (rd (ea_firstcol st) row) (\<lambda>fcol.
     if fcol = a_n
     then bnd (wr (ea_firstcol st) row col) (\<lambda>fc'.
          bnd (rd (ea_rdegs st) (ea_cset st)) (\<lambda>d.
          bnd (wr (ea_rdegs st) (ea_cset st) (d + 1)) (\<lambda>rdegs'.
          ea_merge_row row (st \<lparr> ea_firstcol := fc', ea_rdegs := rdegs' \<rparr>))))
     else bnd (uf_find (ea_sets st) fcol) (\<lambda>(sets1, rset).
          bnd (rd (ea_root st) rset) (\<lambda>rroot.
          if rroot \<noteq> col
          then bnd (rd (ea_rnums st) rset) (\<lambda>rnum.
               bnd (ea_merge_row rnum (st \<lparr> ea_sets := sets1 \<rparr>)) (\<lambda>st1.
               bnd (wr (ea_parent st1) rroot col) (\<lambda>par'.
               let cset_old = ea_cset st1 in
               bnd (uf_union (ea_sets st1) (ea_cset st1) rset) (\<lambda>(sets2, cset').
               bnd (rd (ea_rdegs st1) cset_old) (\<lambda>d1.
               bnd (rd (ea_rdegs st1) rset) (\<lambda>d2.
               bnd (wr (ea_rdegs st1) cset' (d1 + d2)) (\<lambda>rdegs'.
               bnd (wr (ea_root st1) cset' col) (\<lambda>root'.
               Inr (st1 \<lparr> ea_parent := par', ea_sets := sets2, ea_cset := cset',
                          ea_rdegs := rdegs', ea_root := root' \<rparr>)))))))))
          else Inr (st \<lparr> ea_sets := sets1 \<rparr>)))))"

definition ea_unmark_step :: "arr \<Rightarrow> int \<Rightarrow> int \<Rightarrow> arr \<Rightarrow> error + arr" where
  "ea_unmark_step ws row_start j col_mmb =
     bnd (rd ws (row_start + j)) (\<lambda>c. wr col_mmb c 0)"

text \<open>The end of a pivot step: sizes, the name of the united row, and the clean-up.\<close>

definition ea_finish_col :: "arr \<Rightarrow> int \<Rightarrow> int \<Rightarrow> int \<Rightarrow> ea_state \<Rightarrow> error + ea_state" where
  "ea_finish_col a_rowind base col org_col st =
     bnd (rd (ea_rdegs st) (ea_cset st)) (\<lambda>d.
     bnd (wr (ea_l_size st) col d) (\<lambda>lsz'.
     if \<not> ea_row_size st > 0 then Inl AssertRowSize
     else
     bnd (wr (ea_u_size st) col (ea_row_size st)) (\<lambda>usz'.
     bnd (wr (ea_rdegs st) (ea_cset st) (max 0 (d - 1))) (\<lambda>rdegs'.
     bnd (rd a_rowind base) (\<lambda>first_row.
     bnd (wr (ea_rnums st) (ea_cset st) first_row) (\<lambda>rnums'.
     bnd (wr (ea_rows_start st) first_row (ea_row_start st)) (\<lambda>rows_start'.
     bnd (wr (ea_rows_size st) first_row (ea_row_size st)) (\<lambda>rows_size'.
     bnd (wr (ea_row_cleared st) first_row 0) (\<lambda>row_cleared'.
     bnd (for_loop 0 (ea_row_size st) (ea_unmark_step (ea_row_workspace st) (ea_row_start st))
            (ea_col_mmb st)) (\<lambda>col_mmb'.
     bnd (wr (ea_col_cleared st) org_col 1) (\<lambda>col_cleared'.
     Inr (st \<lparr> ea_l_size := lsz', ea_u_size := usz', ea_rdegs := rdegs', ea_rnums := rnums',
               ea_rows_start := rows_start', ea_rows_size := rows_size',
               ea_row_cleared := row_cleared', ea_col_mmb := col_mmb',
               ea_next_row := ea_row_start st + ea_row_size st,
               ea_col_cleared := col_cleared' \<rparr>))))))))))))"

text \<open>The head of a pivot step: garbage collection, when the workspace may not hold one more
  row.\<close>

definition ea_gc_step :: "bool \<Rightarrow> 'a ccs_matrix \<Rightarrow> int \<Rightarrow> ea_state \<Rightarrow> error + ea_state" where
  "ea_gc_step mem_gc A col st =
     bnd (rd (colptr A) (ccs_n A)) (\<lambda>nnz.
     if ea_next_row st + ccs_n A - col > nnz + MULTILU_EAN_BUFFER * ccs_n A
     then bnd (garbage_collect mem_gc (ea_row_workspace st) (ea_rows_start st)
                 (ea_rows_size st) (ea_row_cleared st) (ccs_m A)) (\<lambda>(loc, ws, starts).
          Inr (st \<lparr> ea_next_row := loc, ea_row_workspace := ws, ea_rows_start := starts \<rparr>))
     else Inr st)"

text \<open>The pivot step after it, from the assertion that the pivot column is not empty.\<close>

definition ea_pivot_step ::
    "'a ccs_matrix \<Rightarrow> arr \<Rightarrow> int \<Rightarrow> ea_state \<Rightarrow> error + ea_state" where
  "ea_pivot_step A column_order col st1 =
     bnd (rd column_order col) (\<lambda>org_col.
     bnd (rd (colptr A) (org_col + 1)) (\<lambda>c1.
     bnd (rd (colptr A) org_col) (\<lambda>c0.
     if \<not> c1 > c0 then Inl AssertEmptyColumn
     else
     bnd (wr (ea_root st1) col col) (\<lambda>root'.
     bnd (wr (ea_parent st1) col (ccs_n A)) (\<lambda>par'.
     bnd (wr (ea_rdegs st1) col 0) (\<lambda>rdegs'.
     bnd (for_loop 0 (c1 - c0) (ea_nz_step (ccs_n A) (rowind A) c0 col)
            (st1 \<lparr> ea_row_start := ea_next_row st1, ea_row_size := 0, ea_cset := col,
                   ea_root := root', ea_parent := par', ea_rdegs := rdegs' \<rparr>)) (\<lambda>st2.
     ea_finish_col (rowind A) c0 col org_col st2)))))))"

text \<open>One pivot step: the body of the loop over the columns in the given order.\<close>

definition ea_col_step ::
    "bool \<Rightarrow> 'a ccs_matrix \<Rightarrow> arr \<Rightarrow> int \<Rightarrow> ea_state \<Rightarrow> error + ea_state" where
  "ea_col_step mem_gc A column_order col st =
     bnd (ea_gc_step mem_gc A col st) (ea_pivot_step A column_order col)"

text \<open>
  \<open>elimination_analysis\<close>.  The first argument says whether the work arrays could be
  allocated, the second whether the allocation inside \<open>garbage_collect\<close> succeeds.  The result
  is \<open>parent\<close>, \<open>l_size\<close> and \<open>u_size\<close>.
\<close>

definition elimination_analysis ::
    "bool \<Rightarrow> bool \<Rightarrow> 'a ccs_matrix \<Rightarrow> arr \<Rightarrow> arr \<Rightarrow> arr \<Rightarrow> arr \<Rightarrow> error + arr \<times> arr \<times> arr" where
  "elimination_analysis mem mem_gc A column_order par lsz usz =
     (if \<not> mem then Inl OutOfMemory
      else
        bnd (ea_init A par lsz usz) (\<lambda>st0.
        bnd (for_loop 0 (ccs_n A) (ea_col_step mem_gc A column_order) st0) (\<lambda>st.
        Inr (ea_parent st, ea_l_size st, ea_u_size st))))"

section \<open>df\_postorder\<close>

text \<open>
  The traversal is a \<open>while\<close> loop over an explicit stack, and the descendant count of a vertex
  is summed along its list of children.  Neither loop has a bound of its own: on a child list
  that is not a proper list they can go on until they leave an array.  A run that does not return
  is the value \<open>None\<close>.
\<close>

partial_function (option) dfp_sum_children ::
    "arr \<Rightarrow> int \<Rightarrow> int \<Rightarrow> arr \<Rightarrow> (error + arr) option" where
  "dfp_sum_children next_child0 vertex child desc_count =
     (if child \<noteq> NONE
      then (case bnd (rd desc_count vertex) (\<lambda>a.
                 bnd (rd desc_count child) (\<lambda>b.
                 bnd (wr desc_count vertex (a + b)) (\<lambda>dc'.
                 bnd (rd next_child0 child) (\<lambda>nx. Inr (dc', nx))))) of
              Inl e \<Rightarrow> Some (Inl e)
            | Inr (dc', nx) \<Rightarrow> dfp_sum_children next_child0 vertex nx dc')
      else Some (Inr desc_count))"

declare dfp_sum_children.simps [code]

record dfp_state =
  dfp_stack_vertex :: arr
  dfp_stack_child :: arr
  dfp_postorder :: arr
  dfp_desc_count :: arr
  dfp_postnum :: int
  dfp_depth :: int

text \<open>Descending to the next child on top of the stack.\<close>

definition dfp_push :: "arr \<Rightarrow> dfp_state \<Rightarrow> int \<Rightarrow> error + dfp_state" where
  "dfp_push first_child0 st c =
     (let depth = dfp_depth st in
      bnd (wr (dfp_stack_vertex st) (depth + 1) c) (\<lambda>sv.
      bnd (rd sv (depth + 1)) (\<lambda>v.
      bnd (rd first_child0 v) (\<lambda>f.
      bnd (wr (dfp_stack_child st) (depth + 1) f) (\<lambda>sc.
      Inr (st \<lparr> dfp_stack_vertex := sv, dfp_stack_child := sc, dfp_depth := depth + 1 \<rparr>))))))"

text \<open>Leaving the vertex on top of the stack, after its children have been counted.\<close>

definition dfp_pop :: "arr \<Rightarrow> dfp_state \<Rightarrow> error + dfp_state" where
  "dfp_pop next_child0 st =
     (let depth = dfp_depth st - 1 in
      if depth \<ge> 0
      then bnd (rd (dfp_stack_child st) depth) (\<lambda>c.
           bnd (rd next_child0 c) (\<lambda>nx.
           bnd (wr (dfp_stack_child st) depth nx) (\<lambda>sc.
           Inr (st \<lparr> dfp_stack_child := sc, dfp_depth := depth \<rparr>))))
      else Inr (st \<lparr> dfp_depth := depth \<rparr>))"

partial_function (option) dfp_loop ::
    "arr \<Rightarrow> arr \<Rightarrow> int \<Rightarrow> dfp_state \<Rightarrow> (error + dfp_state) option" where
  "dfp_loop first_child0 next_child0 root st =
     (if dfp_depth st \<ge> 0
      then
        (case rd (dfp_stack_child st) (dfp_depth st) of
           Inl e \<Rightarrow> Some (Inl e)
         | Inr c \<Rightarrow>
             if c \<noteq> NONE
             then (case dfp_push first_child0 st c of
                     Inl e \<Rightarrow> Some (Inl e)
                   | Inr st' \<Rightarrow> dfp_loop first_child0 next_child0 root st')
             else
               (case rd (dfp_stack_vertex st) (dfp_depth st) of
                  Inl e \<Rightarrow> Some (Inl e)
                | Inr vertex \<Rightarrow>
                    if vertex \<noteq> root
                    then
                      if \<not> vertex < root then Some (Inl AssertVertex)
                      else
                        (case bnd (wr (dfp_postorder st) (dfp_postnum st) vertex) (\<lambda>po.
                              bnd (wr (dfp_desc_count st) vertex 1) (\<lambda>dc.
                              bnd (rd first_child0 vertex) (\<lambda>f. Inr (po, dc, f)))) of
                           Inl e \<Rightarrow> Some (Inl e)
                         | Inr (po, dc, f) \<Rightarrow>
                             (case dfp_sum_children next_child0 vertex f dc of
                                None \<Rightarrow> None
                              | Some (Inl e) \<Rightarrow> Some (Inl e)
                              | Some (Inr dc') \<Rightarrow>
                                  (case dfp_pop next_child0
                                          (st \<lparr> dfp_postorder := po, dfp_desc_count := dc',
                                                dfp_postnum := dfp_postnum st + 1 \<rparr>) of
                                     Inl e \<Rightarrow> Some (Inl e)
                                   | Inr st' \<Rightarrow> dfp_loop first_child0 next_child0 root st')))
                    else
                      (case dfp_pop next_child0 st of
                         Inl e \<Rightarrow> Some (Inl e)
                       | Inr st' \<Rightarrow> dfp_loop first_child0 next_child0 root st')))
      else Some (Inr st))"

declare dfp_loop.simps [code]

text \<open>\<open>df_postorder\<close>: the result is \<open>postorder\<close> and \<open>desc_count\<close>.\<close>

definition df_postorder ::
    "bool \<Rightarrow> arr \<Rightarrow> arr \<Rightarrow> int \<Rightarrow> arr \<Rightarrow> arr \<Rightarrow> (error + arr \<times> arr) option" where
  "df_postorder mem first_child0 next_child0 root postorder desc_count =
     (if \<not> mem then Some (Inl OutOfMemory)
      else
        (case bnd (wr (malloc (root + 1)) 0 root) (\<lambda>sv.
              bnd (rd sv 0) (\<lambda>v.
              bnd (rd first_child0 v) (\<lambda>f.
              bnd (wr (malloc (root + 1)) 0 f) (\<lambda>sc.
              Inr \<lparr> dfp_stack_vertex = sv, dfp_stack_child = sc, dfp_postorder = postorder,
                    dfp_desc_count = desc_count, dfp_postnum = 0, dfp_depth = 0 \<rparr>)))) of
           Inl e \<Rightarrow> Some (Inl e)
         | Inr st0 \<Rightarrow>
             (case dfp_loop first_child0 next_child0 root st0 of
                None \<Rightarrow> None
              | Some (Inl e) \<Rightarrow> Some (Inl e)
              | Some (Inr st) \<Rightarrow> Some (Inr (dfp_postorder st, dfp_desc_count st)))))"

section \<open>taucs\_ccs\_factor\_lu\_symbolic\<close>

text \<open>Which of the allocations of the symbolic phase succeed.\<close>

record alloc_ok =
  mem_symbolic :: bool
  mem_elimination :: bool
  mem_garbage :: bool
  mem_postorder :: bool
  mem_detect :: bool

definition all_allocated :: alloc_ok where
  "all_allocated =
     \<lparr> mem_symbolic = True, mem_elimination = True, mem_garbage = True,
       mem_postorder = True, mem_detect = True \<rparr>"

text \<open>The column elimination tree in first-child / next-child form.\<close>

definition sym_tree_step :: "arr \<Rightarrow> int \<Rightarrow> arr \<times> arr \<Rightarrow> error + arr \<times> arr" where
  "sym_tree_step par i t =
     (case t of (fc, nc) \<Rightarrow>
        bnd (rd par i) (\<lambda>p.
        bnd (rd fc p) (\<lambda>f.
        bnd (wr nc i f) (\<lambda>nc'.
        bnd (wr fc p i) (\<lambda>fc'.
        Inr (fc', nc'))))))"

definition sym_one_child_step :: "arr \<Rightarrow> arr \<Rightarrow> arr \<Rightarrow> int \<Rightarrow> arr \<Rightarrow> error + arr" where
  "sym_one_child_step postorder fc nc i one_child =
     bnd (rd postorder i) (\<lambda>col.
     bnd (rd fc col) (\<lambda>f.
     bnd (if f \<noteq> NONE then bnd (rd nc f) (\<lambda>nx. Inr (nx = NONE)) else Inr False) (\<lambda>single.
     if single then wr one_child i 1 else Inr one_child)))"

definition sym_order_step ::
    "arr \<Rightarrow> arr \<Rightarrow> arr \<Rightarrow> int \<Rightarrow> arr \<times> arr \<Rightarrow> error + arr \<times> arr" where
  "sym_order_step column_order postorder desc_count_org i t =
     (case t of (cols, desc_count) \<Rightarrow>
        bnd (rd postorder i) (\<lambda>pc.
        bnd (rd column_order pc) (\<lambda>c.
        bnd (wr cols i c) (\<lambda>cols'.
        bnd (rd desc_count_org pc) (\<lambda>d.
        bnd (wr desc_count i d) (\<lambda>dc'.
        Inr (cols', dc')))))))"

text \<open>
  The bounds of a supercolumn are the largest bound of its columns, each raised by the number
  of columns before it in the supercolumn.  (The source has a second branch for
  \<open>MULTILU_RELAX_RULE_SIZE = 0\<close> and \<open>MULTILU_MAX_OVERFILL_RATIO = 1\<close>, not the values it is
  compiled with.)
\<close>

definition sym_size_col_step ::
    "arr \<Rightarrow> arr \<Rightarrow> arr \<Rightarrow> int \<Rightarrow> int \<Rightarrow> int \<Rightarrow> arr \<times> arr \<Rightarrow> error + arr \<times> arr" where
  "sym_size_col_step lsz usz postorder firstcol_ind i j t =
     (case t of (sl, su) \<Rightarrow>
        bnd (rd postorder (firstcol_ind + j)) (\<lambda>pc.
        bnd (rd sl i) (\<lambda>cur_l.
        bnd (rd lsz pc) (\<lambda>l.
        bnd (wr sl i (max cur_l (l + j))) (\<lambda>sl'.
        bnd (rd su i) (\<lambda>cur_u.
        bnd (rd usz pc) (\<lambda>u.
        bnd (wr su i (max cur_u (u + j))) (\<lambda>su'.
        Inr (sl', su')))))))))"

definition sym_size_step ::
    "arr \<Rightarrow> arr \<Rightarrow> arr \<Rightarrow> arr \<Rightarrow> int \<Rightarrow> int \<times> arr \<times> arr \<Rightarrow> error + int \<times> arr \<times> arr" where
  "sym_size_step lsz usz postorder sc_size i t =
     (case t of (firstcol_ind, sl, su) \<Rightarrow>
        bnd (wr sl i 0) (\<lambda>sl0.
        bnd (wr su i 0) (\<lambda>su0.
        bnd (rd sc_size i) (\<lambda>z.
        bnd (for_loop 0 z (sym_size_col_step lsz usz postorder firstcol_ind i) (sl0, su0))
          (\<lambda>(sl', su').
        Inr (firstcol_ind + z, sl', su'))))))"

definition taucs_ccs_factor_lu_symbolic ::
    "alloc_ok \<Rightarrow> 'a ccs_matrix \<Rightarrow> arr \<Rightarrow> (error + multilu_symbolic) option" where
  "taucs_ccs_factor_lu_symbolic mem A column_order =
     (let n = ccs_n A; symbolic = allocate_symbolic n in
      if \<not> mem_symbolic mem then Some (Inl OutOfMemory)
      else
        (case
           bnd (elimination_analysis (mem_elimination mem) (mem_garbage mem) A column_order
                  (parent (etree symbolic)) (malloc (n + 1)) (malloc (n + 1))) (\<lambda>(par, lsz, usz).
           bnd (memset (first_child (etree symbolic)) NONE (n + 1)) (\<lambda>fc0.
           bnd (for_down (n - 1) 0 (sym_tree_step par) (fc0, next_child (etree symbolic)))
             (\<lambda>(fc, nc). Inr (par, lsz, usz, fc, nc))))
         of
           Inl e \<Rightarrow> Some (Inl e)
         | Inr (par, lsz, usz, fc, nc) \<Rightarrow>
             (case df_postorder (mem_postorder mem) fc nc n (malloc n) (malloc n) of
                None \<Rightarrow> None
              | Some (Inl e) \<Rightarrow> Some (Inl e)
              | Some (Inr (postorder, desc_count_org)) \<Rightarrow>
                  Some
                   (bnd (for_loop 0 n (sym_one_child_step postorder fc nc) (calloc n))
                      (\<lambda>one_child.
                    bnd (for_loop 0 n (sym_order_step column_order postorder desc_count_org)
                           (columns symbolic, malloc n)) (\<lambda>(cols, desc_count).
                    bnd (detect_supercol (mem_detect mem) A cols one_child desc_count lsz usz
                           postorder (supercolumn_size symbolic) par) (\<lambda>(sc_num, sc_size, scp).
                    bnd (for_loop 0 sc_num (sym_size_step lsz usz postorder sc_size)
                           (0, l_size symbolic, u_size symbolic)) (\<lambda>(firstcol_ind, sl, su).
                    complete_symbolic
                      (symbolic \<lparr> columns := cols, number_supercolumns := sc_num,
                                 supercolumn_size := sc_size, l_size := sl, u_size := su,
                                 etree := (etree symbolic)
                                   \<lparr> parent := scp, first_child := fc, next_child := nc \<rparr>
                               \<rparr>)))))))))"

definition relax_closes :: "arr \<Rightarrow> arr \<Rightarrow> arr \<Rightarrow> int \<Rightarrow> bool" where
  "relax_closes sc_parent lastcol desc_count i =
     (case rd sc_parent i of
        Inl e \<Rightarrow> False
      | Inr p \<Rightarrow> p \<noteq> NONE \<and>
          (case rd lastcol p of
             Inl e \<Rightarrow> False
           | Inr c \<Rightarrow> (case rd desc_count c of
                         Inl e \<Rightarrow> False
                       | Inr d \<Rightarrow> d \<ge> MULTILU_RELAX_RULE_SIZE)))"

definition forward_parents :: "int \<Rightarrow> arr \<Rightarrow> bool" where
  "forward_parents k par =
     list_all (\<lambda>i. case rd par i of Inl e \<Rightarrow> False | Inr p \<Rightarrow> p = NONE \<or> i < p) [0..k - 1]"

section \<open>Example inputs\<close>

text \<open>The diagonal matrix \<open>diag(2, 3, 5, 7)\<close> in compressed-column form.\<close>

definition diag4 :: "int ccs_matrix" where
  "diag4 =
     \<lparr> ccs_m = 4, ccs_n = 4, colptr = from_list [0, 1, 2, 3, 4],
       rowind = from_list [0, 1, 2, 3], taucs_values = [2, 3, 5, 7] \<rparr>"

text \<open>A 3 by 3 arrow matrix: a diagonal, with a full last column.  In its column elimination
  tree the columns 0 and 1 are the children of column 2.\<close>

definition arrow3 :: "int ccs_matrix" where
  "arrow3 =
     \<lparr> ccs_m = 3, ccs_n = 3, colptr = from_list [0, 1, 2, 5],
       rowind = from_list [0, 1, 0, 1, 2], taucs_values = [1, 1, 1, 1, 1] \<rparr>"

text \<open>Twenty leaf supercolumns of one column each under one root: the parent array, the last
  column of every supercolumn, and the descendant count of every column.\<close>

definition star_parent :: arr where
  "star_parent = from_list (replicate 20 20 @ [-1])"

definition star_lastcol :: arr where
  "star_lastcol = from_list [0..20]"

definition star_desc_count :: arr where
  "star_desc_count = from_list (replicate 20 1 @ [21])"

text \<open>A 21 by 21 arrow matrix: a diagonal, with a full last column.  The twenty leading columns
  are the children of the last one, which has 21 descendants.\<close>

definition arrow21 :: "int ccs_matrix" where
  "arrow21 =
     \<lparr> ccs_m = 21, ccs_n = 21, colptr = from_list ([0..20] @ [41]),
       rowind = from_list ([0..19] @ [0..20]), taucs_values = replicate 41 1 \<rparr>"

definition arrow21_symbolic_result :: multilu_symbolic where
  "arrow21_symbolic_result =
     \<lparr> sym_n = 21,
       columns = from_list [0..20] @ [None],
       number_supercolumns = 21,
       start_supercolumn = from_list [0..20] @ [None],
       end_supercolumn = from_list [0..20] @ [None],
       supercolumn_size = from_list (replicate 21 1) @ [None],
       supercolumn_covered_columns = from_list (replicate 20 1 @ [21]) @ [None],
       l_size = from_list (replicate 21 1) @ [None],
       u_size = from_list (replicate 20 2 @ [1]) @ [None],
       etree =
         \<lparr> first_root = 20,
           parent = from_list (replicate 20 20 @ [- 1]) @ [None],
           first_child = from_list (replicate 20 (- 1) @ [19, 20]),
           next_child = from_list ([- 1] @ [0..18] @ [- 1]) @ [None],
           first_desc_index = from_list (replicate 20 (- 1) @ [0]) @ [None],
           last_desc_index = from_list (replicate 20 (- 1) @ [19]) @ [None] \<rparr> \<rparr>"

text \<open>Four supercolumns of one column each: supercolumn 1 has the child 0, and the root 3 has
  the children 1 and 2.  This is the symbolic structure as \<open>complete_symbolic\<close> receives it.\<close>

definition tree4_input :: multilu_symbolic where
  "tree4_input =
     (allocate_symbolic 4)
       \<lparr> number_supercolumns := 4,
         supercolumn_size := from_list [1, 1, 1, 1] @ [None],
         etree := (etree (allocate_symbolic 4)) \<lparr> parent := from_list [1, 3, 3, - 1] @ [None] \<rparr> \<rparr>"

definition tree4_result :: multilu_symbolic where
  "tree4_result =
     tree4_input
       \<lparr> start_supercolumn := from_list [0, 1, 2, 3] @ [None],
         end_supercolumn := from_list [0, 1, 2, 3] @ [None],
         supercolumn_covered_columns := from_list [1, 2, 1, 4] @ [None],
         etree :=
           \<lparr> first_root = 3,
             parent = from_list [1, 3, 3, - 1] @ [None],
             first_child = from_list [- 1, 0, - 1, 2] @ [None],
             next_child = from_list [- 1, - 1, 1, - 1] @ [None],
             first_desc_index = from_list [- 1, 0, - 1, 0] @ [None],
             last_desc_index = from_list [- 1, 0, - 1, 2] @ [None] \<rparr> \<rparr>"

section \<open>Invariants of detect\_supercol\<close>

text \<open>
  At the start of the step for column \<open>col\<close>: only columns before \<open>col\<close> are mapped, and to
  supercolumns opened so far; only opened supercolumns have a last column; and the parent
  recorded for a supercolumn is a column that lies in the same or a later supercolumn.
\<close>

definition ds_inv :: "int \<Rightarrow> int \<Rightarrow> ds_state \<Rightarrow> bool" where
  "ds_inv n col st \<longleftrightarrow>
     - 1 \<le> ds_fsc_num st \<and> ds_fsc_num st < col \<and>
     (\<forall>c g. rd (ds_map_col_supercol st) c = Inr g \<longrightarrow> c < col \<and> g \<le> ds_fsc_num st) \<and>
     (\<forall>k v. rd (ds_lastcol st) k = Inr v \<longrightarrow> k \<le> ds_fsc_num st) \<and>
     (\<forall>f p. f < n \<and> rd (ds_sc_parent st) f = Inr p \<longrightarrow>
        p = NONE \<or> (\<exists>g. rd (ds_map_col_supercol st) p = Inr g \<and> f \<le> g))"

text \<open>Inside the step, with \<open>st0\<close> the state at its start: a parent recorded during the step
  is the column \<open>col\<close> itself, which is mapped only at the end of the step.\<close>

definition ds_nz_inv :: "int \<Rightarrow> int \<Rightarrow> ds_state \<Rightarrow> ds_state \<Rightarrow> bool" where
  "ds_nz_inv n col st0 st \<longleftrightarrow>
     ds_map_col_supercol st = ds_map_col_supercol st0 \<and>
     ds_fsc_num st = ds_fsc_num st0 \<and>
     ds_lastcol st = ds_lastcol st0 \<and>
     (\<forall>f p. f < n \<and> rd (ds_sc_parent st) f = Inr p \<longrightarrow>
        p = NONE \<or> (p = col \<and> f \<le> ds_fsc_num st0)
        \<or> (\<exists>g. rd (ds_map_col_supercol st0) p = Inr g \<and> f \<le> g))"

text \<open>During the correction of the parents: below \<open>i\<close> a parent is a later supercolumn or
  none, from \<open>i\<close> on the array is as it was.\<close>

definition ds_fix_inv :: "int \<Rightarrow> arr \<Rightarrow> int \<Rightarrow> arr \<Rightarrow> bool" where
  "ds_fix_inv fsc_num scp0 i scp \<longleftrightarrow>
     (\<forall>j. 0 \<le> j \<and> j < i \<longrightarrow>
        (\<exists>q. rd scp j = Inr q \<and> (q = NONE \<or> (j < q \<and> q < fsc_num)))) \<and>
     (\<forall>j. i \<le> j \<longrightarrow> rd scp j = rd scp0 j)"

text \<open>The last supercolumn of every closed cluster, and of the open one.\<close>

definition relax_last_inv :: "arr \<Rightarrow> arr \<Rightarrow> arr \<Rightarrow> int \<Rightarrow> relax_state \<Rightarrow> bool" where
  "relax_last_inv scp lastcol0 dc i st \<longleftrightarrow>
     0 \<le> rx_sc_num st \<and>
     (\<forall>k. 0 \<le> k \<and> k < rx_sc_num st \<longrightarrow>
        (\<exists>j. rd (rx_lastcol st) k = Inr j \<and> 0 \<le> j \<and> j < i \<and>
             rd (rx_map_fsc_rsc st) j = Inr k \<and> relax_closes scp lastcol0 dc j)) \<and>
     (0 < i \<and> \<not> relax_closes scp lastcol0 dc (i - 1) \<longrightarrow>
        rd (rx_lastcol st) (rx_sc_num st) = Inr (i - 1)) \<and>
     (\<forall>j a. 0 \<le> j \<and> j < i \<and> rd (rx_map_fsc_rsc st) j = Inr a \<longrightarrow>
        0 \<le> a \<and> a \<le> j \<and> a \<le> rx_sc_num st)"

text \<open>During the second correction of the parents.\<close>

definition ds_relax_parent_inv :: "arr \<Rightarrow> int \<Rightarrow> arr \<Rightarrow> bool" where
  "ds_relax_parent_inv scp0 i scp \<longleftrightarrow>
     (\<forall>k p. 0 \<le> k \<and> k < i \<and> rd scp k = Inr p \<longrightarrow> p = NONE \<or> k < p) \<and>
     (\<forall>k. i \<le> k \<longrightarrow> rd scp k = rd scp0 k)"

section \<open>The supercolumn elimination tree\<close>

text \<open>\<open>c\<close> is a proper descendant of \<open>i\<close> among the supercolumns \<open>0 .. S - 1\<close>: following the
  parent pointers from \<open>c\<close> leads to \<open>i\<close>.\<close>

inductive sc_descendant :: "int \<Rightarrow> arr \<Rightarrow> int \<Rightarrow> int \<Rightarrow> bool" for S :: int and par :: arr where
  child: "0 \<le> c \<Longrightarrow> c < S \<Longrightarrow> rd par c = Inr i \<Longrightarrow> i \<noteq> NONE \<Longrightarrow> sc_descendant S par c i"
| above: "0 \<le> c \<Longrightarrow> c < S \<Longrightarrow> rd par c = Inr j \<Longrightarrow> j \<noteq> NONE \<Longrightarrow> sc_descendant S par j i
          \<Longrightarrow> sc_descendant S par c i"

text \<open>\<open>s\<close> has a child among the supercolumns \<open>0 .. k - 1\<close>.\<close>

definition has_child_below :: "arr \<Rightarrow> int \<Rightarrow> int \<Rightarrow> bool" where
  "has_child_below par k s = list_ex (\<lambda>c. rd par c = Inr s) [0..k - 1]"

text \<open>
  The supercolumns are numbered in a postorder of the forest: a parent comes after its child,
  and every supercolumn between a child and its parent hangs below that parent.
\<close>

definition postordered :: "int \<Rightarrow> arr \<Rightarrow> bool" where
  "postordered S par =
     list_all (\<lambda>i. case rd par i of
                     Inl e \<Rightarrow> False
                   | Inr p \<Rightarrow> p = NONE \<or>
                       (i < p \<and> p < S \<and>
                        list_all (\<lambda>j. case rd par j of
                                        Inl e \<Rightarrow> False
                                      | Inr q \<Rightarrow> q \<noteq> NONE \<and> q \<le> p) [i + 1..p - 1]))
       [0..S - 1]"

text \<open>The state of the pass over the descendant ranges when it reaches supercolumn \<open>k\<close>.\<close>

definition cs_desc_inv :: "int \<Rightarrow> arr \<Rightarrow> int \<Rightarrow> arr \<times> arr \<Rightarrow> bool" where
  "cs_desc_inv S par k t \<longleftrightarrow>
     (\<forall>j. 0 \<le> j \<and> j < S \<longrightarrow>
        (\<exists>v. rd (fst t) j = Inr v \<and>
           (if has_child_below par k j
            then 0 \<le> v \<and> v < j \<and> (\<forall>c. sc_descendant S par c j \<longleftrightarrow> v \<le> c \<and> c < j)
            else v = NONE))) \<and>
     (\<forall>j. 0 \<le> j \<and> j < S \<longrightarrow>
        rd (snd t) j = Inr (if j < k \<and> has_child_below par S j then j - 1 else NONE))"

section \<open>Empty columns\<close>

text \<open>Every column of the matrix has a stored entry: \<open>colptr\<close> has its \<open>n + 1\<close> cells and is
  strictly increasing.\<close>

definition no_empty_column :: "'a ccs_matrix \<Rightarrow> bool" where
  "no_empty_column A \<longleftrightarrow>
     int (length (colptr A)) = ccs_n A + 1 \<and>
     list_all (\<lambda>j. case rd (colptr A) j of
                     Inl e \<Rightarrow> False
                   | Inr a \<Rightarrow> (case rd (colptr A) (j + 1) of Inl e \<Rightarrow> False | Inr b \<Rightarrow> a < b))
       [0..ccs_n A - 1]"

text \<open>The column eliminated at pivot step \<open>k\<close> has no stored entry.\<close>

definition empty_pivot_column :: "'a ccs_matrix \<Rightarrow> arr \<Rightarrow> int \<Rightarrow> bool" where
  "empty_pivot_column A column_order k =
     (case rd column_order k of
        Inl e \<Rightarrow> False
      | Inr c \<Rightarrow> (case rd (colptr A) (c + 1) of
                    Inl e \<Rightarrow> False
                  | Inr c1 \<Rightarrow> (case rd (colptr A) c of Inl e \<Rightarrow> False | Inr c0 \<Rightarrow> \<not> c0 < c1)))"

text \<open>A computation that does not end in the failure of the assertion on the pivot column.\<close>

definition no_ec :: "error + 'a \<Rightarrow> bool" where
  "no_ec m \<longleftrightarrow> m \<noteq> Inl AssertEmptyColumn"

text \<open>A 2 by 2 matrix whose second column is empty.\<close>

definition empty2 :: "int ccs_matrix" where
  "empty2 =
     \<lparr> ccs_m = 2, ccs_n = 2, colptr = from_list [0, 1, 1], rowind = from_list [0],
       taucs_values = [1] \<rparr>"

named_theorems no_ec_intros

section \<open>Numeric factorization of one supercolumn\<close>

text \<open>
  The numeric phase is modelled on its index data: which rows and columns a block holds and
  where the maps \<open>map_rows\<close> and \<open>map_cols\<close> send them.  The dense values, their leading
  dimensions and the dense kernels that only read and write values are left out.  \<open>spawn\<close> and
  \<open>sync\<close> are empty macros in the build without Cilk, so the calls are ordinary calls.
\<close>

text \<open>The index part of \<open>multilu_contrib_block\<close>.\<close>

record contrib_block =
  cb_m :: int
  cb_n :: int
  cb_columns :: arr
  cb_col_loc :: arr
  cb_rows :: arr
  cb_row_loc :: arr
  cb_num_cols_in_parent :: int
  cb_L_member :: bool
  cb_U_member :: bool

text \<open>
  The index part of \<open>multilu_factor_block\<close>.  The pointers \<open>non_pivot_rows\<close> and
  \<open>non_pivot_cols\<close> point into the arrays \<open>pivot_rows\<close> and \<open>pivot_cols\<close>: the source assigns
  them \<open>pivot_rows + row_b_size\<close> (line 2055) and \<open>pivot_cols + supercolumn_size\<close> (lines 2213
  and 2388) and nothing else, so the model reads \<open>non_pivot_rows[i]\<close> as
  \<open>pivot_rows[row_b_size + i]\<close> and \<open>non_pivot_cols[i]\<close> as \<open>pivot_cols[supercolumn_size + i]\<close>.
  The field \<open>contrib_block\<close> of block \<open>i\<close> is kept in a list of its own, \<open>fs_contribs\<close>.
\<close>

record factor_block =
  fb_valid :: bool
  fb_row_pivots_number :: int
  fb_col_pivots_number :: int
  fb_pivot_rows :: arr
  fb_pivot_cols :: arr
  fb_non_pivot_rows_number :: int
  fb_non_pivot_cols_number :: int
  fb_l_size :: int

text \<open>What \<open>factorize_supercolumn\<close> reads and writes of \<open>multilu_context\<close>, the column map
  apart: \<open>F->blocks\<close> (\<open>None\<close> is a null pointer), the contribution blocks, and the workspaces
  \<open>row_cleared\<close>, \<open>column_cleared\<close> and \<open>map_rows\<close>.\<close>

record fs_state =
  fs_blocks :: "factor_block option list"
  fs_contribs :: "contrib_block option list"
  fs_row_cleared :: arr
  fs_column_cleared :: arr
  fs_map_rows :: arr

definition get_block :: "factor_block option list \<Rightarrow> int \<Rightarrow> error + factor_block" where
  "get_block blocks i =
     (if 0 \<le> i \<and> i < int (length blocks)
      then (case blocks ! nat i of None \<Rightarrow> Inl NullPointer | Some b \<Rightarrow> Inr b)
      else Inl OutOfBounds)"

definition set_block ::
    "factor_block option list \<Rightarrow> int \<Rightarrow> factor_block \<Rightarrow> error + factor_block option list" where
  "set_block blocks i b =
     (if 0 \<le> i \<and> i < int (length blocks) then Inr (blocks[nat i := Some b])
      else Inl OutOfBounds)"

definition get_contrib :: "contrib_block option list \<Rightarrow> int \<Rightarrow> error + contrib_block option" where
  "get_contrib cs i =
     (if 0 \<le> i \<and> i < int (length cs) then Inr (cs ! nat i) else Inl OutOfBounds)"

definition set_contrib ::
    "contrib_block option list \<Rightarrow> int \<Rightarrow> contrib_block option
     \<Rightarrow> error + contrib_block option list" where
  "set_contrib cs i c =
     (if 0 \<le> i \<and> i < int (length cs) then Inr (cs[nat i := c]) else Inl OutOfBounds)"

text \<open>\<open>taucs_realloc\<close> of an \<open>int\<close> array to \<open>k\<close> cells: the old cells that fit are kept.\<close>

definition realloc :: "arr \<Rightarrow> int \<Rightarrow> arr" where
  "realloc a k = take (nat k) a @ replicate (nat k - length a) None"

text \<open>\<open>is_member\<close>: the first position of \<open>x\<close> among \<open>S[0 .. n - 1]\<close>, or -1.\<close>

definition is_member :: "int \<Rightarrow> arr \<Rightarrow> int \<Rightarrow> error + int" where
  "is_member x S n =
     for_loop 0 n
       (\<lambda>i r. if r \<noteq> -1 then Inr r else bnd (rd S i) (\<lambda>v. Inr (if v = x then i else -1)))
       (-1)"

subsection \<open>focus\_rows\<close>

text \<open>
  The variables of \<open>focus_rows\<close> that change: \<open>size\<close>, the array that \<open>ind\<close> points into (the
  \<open>pivot_cols\<close> of the block, \<open>ind[k]\<close> being its cell \<open>off + k\<close>), the column map, \<open>row_cleared\<close>
  and the contribution blocks.
\<close>

record fr_state =
  fr_size :: int
  fr_ind :: arr
  fr_map_cols :: arr
  fr_row_cleared :: arr
  fr_contribs :: "contrib_block option list"

text \<open>
  A column met in a focused row: when the map knows it, only a value is stored; otherwise it gets
  the next index, which is written to \<open>ind\<close> and to the map (lines 2637-2645 and 2700-2708).
\<close>

definition fr_add :: "int \<Rightarrow> int \<Rightarrow> fr_state \<Rightarrow> error + fr_state" where
  "fr_add off column t =
     bnd (rd (fr_map_cols t) column) (\<lambda>mc.
     if mc \<noteq> -1 then Inr t
     else bnd (wr (fr_ind t) (off + fr_size t) column) (\<lambda>ind'.
          bnd (wr (fr_map_cols t) column (fr_size t)) (\<lambda>map_cols'.
          Inr (t \<lparr> fr_ind := ind', fr_map_cols := map_cols', fr_size := fr_size t + 1 \<rparr>))))"

text \<open>One entry of a row of the matrix, read in the transpose \<open>At\<close>.\<close>

definition fr_entry_step ::
    "'a ccs_matrix \<Rightarrow> arr \<Rightarrow> int \<Rightarrow> int \<Rightarrow> fr_state \<Rightarrow> error + fr_state" where
  "fr_entry_step At column_cleared off i t =
     bnd (rd (rowind At) i) (\<lambda>column.
     bnd (rd column_cleared column) (\<lambda>cc.
     if cc \<noteq> 0 then Inr t else fr_add off column t))"

text \<open>One row, assembled from the matrix.\<close>

definition fr_row_step ::
    "'a ccs_matrix \<Rightarrow> arr \<Rightarrow> arr \<Rightarrow> int \<Rightarrow> int \<Rightarrow> int \<Rightarrow> fr_state \<Rightarrow> error + fr_state" where
  "fr_row_step At column_cleared rows off max_size row_ind t =
     bnd (rd rows row_ind) (\<lambda>row.
     bnd (rd (fr_row_cleared t) row) (\<lambda>rc.
     if rc \<noteq> 0 then Inl AssertCleared
     else
     bnd (rd (colptr At) row) (\<lambda>c0.
     bnd (rd (colptr At) (row + 1)) (\<lambda>c1.
     bnd (for_loop c0 c1 (fr_entry_step At column_cleared off) t) (\<lambda>t1.
     bnd (wr (fr_row_cleared t1) row 1) (\<lambda>row_cleared'.
     if fr_size t1 \<le> max_size then Inr (t1 \<lparr> fr_row_cleared := row_cleared' \<rparr>)
     else Inl AssertSize))))))"

text \<open>One column of a contribution block of a descendant.\<close>

definition fr_contrib_col_step ::
    "arr \<Rightarrow> int \<Rightarrow> contrib_block \<Rightarrow> int \<Rightarrow> fr_state \<Rightarrow> error + fr_state" where
  "fr_contrib_col_step column_cleared off cb i t =
     bnd (rd (cb_columns cb) i) (\<lambda>col.
     bnd (rd column_cleared col) (\<lambda>cc.
     if cc \<noteq> 0 then Inl AssertCleared
     else bnd (rd (cb_col_loc cb) i) (\<lambda>i_loc. fr_add off col t)))"

text \<open>
  One row against the contribution block of a descendant.  The block loses the row; when it was
  its last row the block is freed and the loop over the rows is left (\<open>break\<close>): the first
  component \<open>None\<close> is the loop after the \<open>break\<close>.
\<close>

definition fr_contrib_row_step ::
    "arr \<Rightarrow> arr \<Rightarrow> int \<Rightarrow> int \<Rightarrow> int \<Rightarrow> contrib_block option \<times> fr_state
     \<Rightarrow> error + contrib_block option \<times> fr_state" where
  "fr_contrib_row_step column_cleared rows off max_size row_ind p =
     (case p of
        (None, t) \<Rightarrow> Inr (None, t)
      | (Some cb, t) \<Rightarrow>
          bnd (rd rows row_ind) (\<lambda>row.
          bnd (is_member row (cb_rows cb) (cb_m cb)) (\<lambda>loc_arr.
          if loc_arr \<noteq> -1
          then bnd (rd (cb_row_loc cb) loc_arr) (\<lambda>loc_val.
               bnd (for_loop 0 (cb_n cb) (fr_contrib_col_step column_cleared off cb) t) (\<lambda>t1.
               if cb_m cb - 1 = 0 then Inr (None, t1)
               else
               bnd (rd (cb_rows cb) (cb_m cb - 1)) (\<lambda>r.
               bnd (wr (cb_rows cb) loc_arr r) (\<lambda>rows'.
               bnd (rd (cb_row_loc cb) (cb_m cb - 1)) (\<lambda>l.
               bnd (wr (cb_row_loc cb) loc_arr l) (\<lambda>row_loc'.
               if fr_size t1 \<le> max_size
               then Inr (Some (cb \<lparr> cb_m := cb_m cb - 1, cb_rows := rows',
                                    cb_row_loc := row_loc', cb_L_member := True \<rparr>), t1)
               else Inl AssertSize))))))
          else if fr_size t \<le> max_size then Inr (Some cb, t) else Inl AssertSize)))"

text \<open>One descendant: nothing when it has no contribution block.\<close>

definition fr_desc_step ::
    "factor_block option list \<Rightarrow> arr \<Rightarrow> arr \<Rightarrow> int \<Rightarrow> int \<Rightarrow> int \<Rightarrow> int \<Rightarrow> fr_state
     \<Rightarrow> error + fr_state" where
  "fr_desc_step blocks column_cleared rows number off max_size c t =
     bnd (get_block blocks c) (\<lambda>desc_factor_block.
     bnd (get_contrib (fr_contribs t) c) (\<lambda>desc_contrib_block.
     case desc_contrib_block of
       None \<Rightarrow> Inr t
     | Some cb \<Rightarrow>
         bnd (for_loop 0 number (fr_contrib_row_step column_cleared rows off max_size)
                (Some cb, t)) (\<lambda>(cb', t1).
         bnd (set_contrib (fr_contribs t1) c cb') (\<lambda>contribs'.
         Inr (t1 \<lparr> fr_contribs := contribs' \<rparr>)))))"

text \<open>\<open>focus_rows\<close>: the result is the state with \<open>size\<close> in it.\<close>

definition focus_rows ::
    "'a ccs_matrix \<Rightarrow> multilu_symbolic \<Rightarrow> factor_block option list \<Rightarrow> arr \<Rightarrow> arr \<Rightarrow> int \<Rightarrow> int
     \<Rightarrow> int \<Rightarrow> int \<Rightarrow> fr_state \<Rightarrow> error + fr_state" where
  "focus_rows At symbolic blocks column_cleared rows number pivot_supercol off max_size t =
     bnd (for_loop 0 number (fr_row_step At column_cleared rows off max_size)
            (t \<lparr> fr_size := 0 \<rparr>)) (\<lambda>t1.
     bnd (rd (first_desc_index (etree symbolic)) pivot_supercol) (\<lambda>fd.
     if fd \<noteq> NONE
     then for_loop fd pivot_supercol
            (fr_desc_step blocks column_cleared rows number off max_size) t1
     else Inr t1))"

subsection \<open>rearrange\_non\_pivot\_cols\<close>

record ra_state =
  ra_num_inparent :: int
  ra_cols :: arr
  ra_map_cols :: arr
  ra_scratch :: arr

text \<open>One column of the parent supercolumn: when the map knows it, it is swapped to the front
  of the non-pivot columns, in the block and in the map.\<close>

definition ra_step :: "multilu_symbolic \<Rightarrow> int \<Rightarrow> int \<Rightarrow> int \<Rightarrow> ra_state \<Rightarrow> error + ra_state" where
  "ra_step symbolic off parent_supercol col_c t =
     bnd (rd (start_supercolumn symbolic) parent_supercol) (\<lambda>start.
     bnd (rd (columns symbolic) (start + col_c)) (\<lambda>column.
     bnd (rd (ra_map_cols t) column) (\<lambda>mc.
     if mc \<noteq> -1
     then bnd (wr (ra_scratch t) (ra_num_inparent t) (mc + 1)) (\<lambda>scratch'.
          bnd (rd (ra_cols t) (off + ra_num_inparent t)) (\<lambda>switched_column.
          bnd (wr (ra_cols t) (off + ra_num_inparent t) column) (\<lambda>cols1.
          bnd (wr cols1 (off + mc) switched_column) (\<lambda>cols2.
          bnd (wr (ra_map_cols t) switched_column mc) (\<lambda>map_cols1.
          bnd (wr map_cols1 column (ra_num_inparent t)) (\<lambda>map_cols2.
          Inr \<lparr> ra_num_inparent = ra_num_inparent t + 1, ra_cols = cols2,
                ra_map_cols = map_cols2, ra_scratch = scratch' \<rparr>))))))
     else Inr t)))"

text \<open>\<open>rearrange_non_pivot_cols\<close>, with the scratch array its caller allocates for it.  The
  result is \<open>num_inparent\<close>, the column array of the block and the column map.\<close>

definition rearrange_non_pivot_cols ::
    "multilu_symbolic \<Rightarrow> int \<Rightarrow> int \<Rightarrow> int \<Rightarrow> arr \<Rightarrow> arr \<Rightarrow> error + int \<times> arr \<times> arr" where
  "rearrange_non_pivot_cols symbolic pivot_supercol off ru_size cols map_cols =
     bnd (rd (parent (etree symbolic)) pivot_supercol) (\<lambda>parent_supercol.
     if parent_supercol = NONE then Inr (0, cols, map_cols)
     else
     bnd (rd (supercolumn_size symbolic) parent_supercol) (\<lambda>psize.
     bnd (for_loop 0 psize (ra_step symbolic off parent_supercol)
            \<lparr> ra_num_inparent = 0, ra_cols = cols, ra_map_cols = map_cols,
              ra_scratch = malloc ru_size \<rparr>) (\<lambda>t.
     Inr (ra_num_inparent t, ra_cols t, ra_map_cols t))))"

subsection \<open>factorize\_supercolumn\<close>

text \<open>The flags \<open>only_child\<close> and \<open>parent_has_job\<close> (lines 2122-2130), computed when there is
  more than one processor.\<close>

definition fs_only_child :: "multilu_symbolic \<Rightarrow> int \<Rightarrow> error + bool" where
  "fs_only_child symbolic pivot_supercol =
     bnd (rd (parent (etree symbolic)) pivot_supercol) (\<lambda>p.
     if p = NONE then Inr False
     else bnd (rd (first_child (etree symbolic)) p) (\<lambda>fc.
          if fc \<noteq> pivot_supercol then Inr False
          else bnd (rd (next_child (etree symbolic)) pivot_supercol) (\<lambda>nc. Inr (nc = NONE))))"

definition fs_parent_has_job :: "multilu_symbolic \<Rightarrow> int \<Rightarrow> error + bool" where
  "fs_parent_has_job symbolic pivot_supercol =
     bnd (rd (parent (etree symbolic)) pivot_supercol) (\<lambda>p.
     if p = NONE then Inr False
     else bnd (rd (l_size symbolic) p) (\<lambda>l. Inr (0 < l)))"

definition fs_one_child :: "multilu_symbolic \<Rightarrow> int \<Rightarrow> error + bool" where
  "fs_one_child symbolic pivot_supercol =
     bnd (rd (first_child (etree symbolic)) pivot_supercol) (\<lambda>fc.
     if fc = NONE then Inr False
     else bnd (rd (next_child (etree symbolic)) fc) (\<lambda>nc. Inr (nc = NONE)))"

text \<open>Lines 2259-2260: the row map of the rows that are not pivots.\<close>

definition fs_map_rows_step :: "arr \<Rightarrow> int \<Rightarrow> int \<Rightarrow> arr \<Rightarrow> error + arr" where
  "fs_map_rows_step pivot_rows row_b_size i map_rows =
     bnd (rd pivot_rows (row_b_size + i)) (\<lambda>r. wr map_rows r i)"

text \<open>Lines 2343-2355: the member flags of the contribution blocks of the descendants.\<close>

definition fs_unmark_step ::
    "factor_block option list \<Rightarrow> int \<Rightarrow> contrib_block option list
     \<Rightarrow> error + contrib_block option list" where
  "fs_unmark_step blocks desc contribs =
     bnd (get_block blocks desc) (\<lambda>desc_factor_block.
     bnd (get_contrib contribs desc) (\<lambda>desc_contrib_block.
     case desc_contrib_block of
       None \<Rightarrow> Inr contribs
     | Some cb \<Rightarrow> set_contrib contribs desc
                   (Some (cb \<lparr> cb_L_member := False, cb_U_member := False \<rparr>))))"

text \<open>Lines 2358-2363: the three loops that clear the row map and the column map.\<close>

definition fs_clear_step :: "arr \<Rightarrow> int \<Rightarrow> int \<Rightarrow> arr \<Rightarrow> error + arr" where
  "fs_clear_step ind off i the_map = bnd (rd ind (off + i)) (\<lambda>x. wr the_map x (-1))"

text \<open>
  The part of \<open>factorize_supercolumn\<close> under \<open>if (l_size > 0)\<close>, lines 2203-2332.  The
  assembly of the new contribution block (lines 2267-2330: \<open>allocate_contrib_block\<close>,
  \<open>align_add_from\<close>, \<open>align_add_subtree\<close> and the dense product) reads the maps and the block
  and writes contribution blocks and values only; what it does to the contribution blocks is left
  open, as the parameter \<open>assemble\<close>.  The result is \<open>ru_size\<close>, the block, the state and the
  column map.
\<close>

definition fs_u_portion ::
    "int \<Rightarrow> multilu_symbolic \<Rightarrow> 'a ccs_matrix
     \<Rightarrow> (int \<Rightarrow> int \<Rightarrow> fs_state \<Rightarrow> arr \<Rightarrow> error + contrib_block option list)
     \<Rightarrow> int \<Rightarrow> factor_block \<Rightarrow> int \<Rightarrow> int \<Rightarrow> bool \<Rightarrow> bool \<Rightarrow> fs_state \<Rightarrow> arr
     \<Rightarrow> error + int \<times> factor_block \<times> fs_state \<times> arr" where
  "fs_u_portion nproc symbolic At assemble pivot_supercol factor_block mu_size col_b_size
       only_child parent_has_job st map_cols =
     (let l_size = fb_l_size factor_block;
          row_b_size = min l_size col_b_size in
     bnd (focus_rows At symbolic (fs_blocks st) (fs_column_cleared st)
            (fb_pivot_rows factor_block) row_b_size pivot_supercol col_b_size mu_size
            \<lparr> fr_size = 0, fr_ind = fb_pivot_cols factor_block, fr_map_cols = map_cols,
              fr_row_cleared = fs_row_cleared st, fr_contribs = fs_contribs st \<rparr>) (\<lambda>t.
     let ru_size = fr_size t;
         cols = realloc (fr_ind t) (col_b_size + ru_size);
         st1 = st \<lparr> fs_row_cleared := fr_row_cleared t, fs_contribs := fr_contribs t \<rparr> in
     if ru_size > 0
     then
       bnd (if only_child \<and> parent_has_job \<and> nproc > 1
            then rearrange_non_pivot_cols symbolic pivot_supercol col_b_size ru_size cols
                   (fr_map_cols t)
            else Inr (0, cols, fr_map_cols t)) (\<lambda>(num_cols_in_parent, cols1, map_cols1).
       let factor_block1 = factor_block \<lparr> fb_pivot_cols := cols1 \<rparr> in
       bnd (set_block (fs_blocks st1) pivot_supercol factor_block1) (\<lambda>blocks1.
       bnd (for_loop 0 (l_size - row_b_size)
              (fs_map_rows_step (fb_pivot_rows factor_block) row_b_size)
              (fs_map_rows st1)) (\<lambda>map_rows1.
       let st2 = st1 \<lparr> fs_blocks := blocks1, fs_map_rows := map_rows1 \<rparr> in
       if l_size - row_b_size > 0
       then bnd (assemble pivot_supercol num_cols_in_parent st2 map_cols1) (\<lambda>contribs'.
            Inr (ru_size, factor_block1, st2 \<lparr> fs_contribs := contribs' \<rparr>, map_cols1))
       else Inr (ru_size, factor_block1, st2, map_cols1))))
     else Inr (ru_size, factor_block \<lparr> fb_pivot_cols := cols \<rparr>, st1, fr_map_cols t)))"

text \<open>The end of \<open>factorize_supercolumn\<close>, lines 2336-2363: the sizes are written into the
  block, the member flags are removed when there is no contribution block, and the maps are
  cleared.\<close>

definition fs_finish ::
    "multilu_symbolic \<Rightarrow> int \<Rightarrow> factor_block \<Rightarrow> int \<Rightarrow> int \<Rightarrow> fs_state \<Rightarrow> arr
     \<Rightarrow> error + fs_state \<times> arr" where
  "fs_finish symbolic pivot_supercol fb col_b_size ru_size st map_cols =
     (let l_size = fb_l_size fb;
          row_b_size = min l_size col_b_size;
          factor_block = fb \<lparr> fb_col_pivots_number := col_b_size,
                              fb_row_pivots_number := row_b_size,
                              fb_non_pivot_rows_number := l_size - row_b_size,
                              fb_non_pivot_cols_number := ru_size \<rparr> in
     bnd (set_block (fs_blocks st) pivot_supercol factor_block) (\<lambda>blocks1.
     bnd (if fb_non_pivot_rows_number factor_block = 0 \<or> fb_non_pivot_cols_number factor_block = 0
          then bnd (rd (first_desc_index (etree symbolic)) pivot_supercol) (\<lambda>fd.
               if fd \<noteq> NONE
               then for_loop fd pivot_supercol (fs_unmark_step blocks1) (fs_contribs st)
               else Inr (fs_contribs st))
          else Inr (fs_contribs st)) (\<lambda>contribs1.
     bnd (for_loop 0 (fb_row_pivots_number factor_block)
            (fs_clear_step (fb_pivot_rows factor_block) 0) (fs_map_rows st)) (\<lambda>map_rows1.
     bnd (for_loop 0 (fb_non_pivot_rows_number factor_block)
            (fs_clear_step (fb_pivot_rows factor_block) row_b_size) map_rows1) (\<lambda>map_rows2.
     bnd (for_loop 0 (fb_non_pivot_cols_number factor_block)
            (fs_clear_step (fb_pivot_cols factor_block) col_b_size) map_cols) (\<lambda>map_cols'.
     Inr (st \<lparr> fs_blocks := blocks1, fs_contribs := contribs1, fs_map_rows := map_rows2 \<rparr>,
          map_cols')))))))"

text \<open>
  \<open>factorize_supercolumn\<close>.  \<open>factorize_l_portion\<close> gets the pointer \<open>map_cols\<close> and never
  dereferences it; it assembles and factors the pivot columns, and what it does to the rest of
  the context is left open, as the parameter \<open>l_portion\<close> (with the flag \<open>one_child\<close> it is
  called with).  With more than one processor and one child, the block of the child is read
  before the block of the supercolumn (lines 2161-2179).
\<close>

definition factorize_supercolumn ::
    "int \<Rightarrow> multilu_symbolic \<Rightarrow> 'a ccs_matrix
     \<Rightarrow> (int \<Rightarrow> bool \<Rightarrow> fs_state \<Rightarrow> error + fs_state)
     \<Rightarrow> (int \<Rightarrow> int \<Rightarrow> fs_state \<Rightarrow> arr \<Rightarrow> error + contrib_block option list)
     \<Rightarrow> int \<Rightarrow> fs_state \<Rightarrow> arr \<Rightarrow> error + fs_state \<times> arr" where
  "factorize_supercolumn nproc symbolic At l_portion assemble pivot_supercol st map_cols =
     bnd (if nproc > 1 then fs_only_child symbolic pivot_supercol else Inr False) (\<lambda>only_child.
     bnd (if nproc > 1 then fs_parent_has_job symbolic pivot_supercol else Inr False)
       (\<lambda>parent_has_job.
     bnd (if nproc > 1 then rd (supercolumn_size symbolic) pivot_supercol else Inr 0) (\<lambda>dense.
     bnd (fs_one_child symbolic pivot_supercol) (\<lambda>one_child.
     bnd (l_portion pivot_supercol one_child st) (\<lambda>st1.
     bnd (if one_child \<and> nproc > 1
          then bnd (rd (first_child (etree symbolic)) pivot_supercol) (\<lambda>child.
               bnd (get_block (fs_blocks st1) child) (\<lambda>child_factor_block.
               get_contrib (fs_contribs st1) child))
          else Inr None) (\<lambda>child_contrib_block.
     bnd (get_block (fs_blocks st1) pivot_supercol) (\<lambda>factor_block.
     if \<not> fb_valid factor_block then Inr (st1, map_cols)
     else
     bnd (rd (u_size symbolic) pivot_supercol) (\<lambda>mu_size.
     bnd (rd (supercolumn_size symbolic) pivot_supercol) (\<lambda>col_b_size.
     bnd (if fb_l_size factor_block > 0
          then fs_u_portion nproc symbolic At assemble pivot_supercol factor_block mu_size
                 col_b_size only_child parent_has_job st1 map_cols
          else Inr (0, factor_block, st1, map_cols)) (\<lambda>(ru_size, factor_block1, st2, map_cols2).
     fs_finish symbolic pivot_supercol factor_block1 col_b_size ru_size st2 map_cols2))))))))))"

text \<open>Every cell of the column map is -1.\<close>

definition all_minus1 :: "arr \<Rightarrow> bool" where
  "all_minus1 a = list_all (\<lambda>v. v = Some (-1)) a"

text \<open>
  The column map while a supercolumn is worked on: a cell that is not -1 holds the index, less
  than \<open>sz\<close> (and at least \<open>lo\<close>), at which its column stands among the non-pivot columns of the block.
\<close>

definition mc_inv :: "nat \<Rightarrow> int \<Rightarrow> int \<Rightarrow> int \<Rightarrow> arr \<Rightarrow> arr \<Rightarrow> bool" where
  "mc_inv len off lo sz ind map_cols \<longleftrightarrow>
     length map_cols = len \<and> 0 \<le> sz \<and>
     (\<forall>c. 0 \<le> c \<and> c < int len \<longrightarrow>
        (\<exists>v. rd map_cols c = Inr v \<and>
             (v \<noteq> -1 \<longrightarrow> lo \<le> v \<and> v < sz \<and> rd ind (off + v) = Inr c)))"
text \<open>
  The first supercolumn of the 21 by 21 arrow matrix, as the sequential loop of the numeric
  factorization hands it to \<open>factorize_supercolumn\<close>: the transpose of the matrix, the block
  that \<open>allocate_factor_block\<close> and \<open>focus_supercolumn_from_A\<close> have prepared (pivot column 0,
  row 0, room for one more column), and the workspaces.  The only other column of row 0 is
  column 20.
\<close>

definition arrow21_transpose :: "int ccs_matrix" where
  "arrow21_transpose =
     \<lparr> ccs_m = 21, ccs_n = 21, colptr = from_list (map (\<lambda>i. 2 * i) [0..20] @ [41]),
       rowind = from_list (concat (map (\<lambda>i. [i, 20]) [0..19]) @ [20]),
       taucs_values = replicate 41 1 \<rparr>"

definition arrow21_block0 :: factor_block where
  "arrow21_block0 =
     \<lparr> fb_valid = True, fb_row_pivots_number = 0, fb_col_pivots_number = 0,
       fb_pivot_rows = from_list [0], fb_pivot_cols = [Some 0, None],
       fb_non_pivot_rows_number = 0, fb_non_pivot_cols_number = 0, fb_l_size = 1 \<rparr>"

definition arrow21_state0 :: fs_state where
  "arrow21_state0 =
     \<lparr> fs_blocks = Some arrow21_block0 # replicate 20 None,
       fs_contribs = replicate 21 None,
       fs_row_cleared = calloc 21,
       fs_column_cleared = from_list (1 # replicate 20 0),
       fs_map_rows = from_list (0 # replicate 20 (- 1)) \<rparr>"

text \<open>An L portion that leaves the context as it is (the pivot search of a block with one row
  has nothing to exchange), and an assembly that adds no contribution block.\<close>

definition l_portion_id :: "int \<Rightarrow> bool \<Rightarrow> fs_state \<Rightarrow> error + fs_state" where
  "l_portion_id pivot_supercol one_child st = Inr st"

definition assemble_none ::
    "int \<Rightarrow> int \<Rightarrow> fs_state \<Rightarrow> arr \<Rightarrow> error + contrib_block option list" where
  "assemble_none pivot_supercol num_cols_in_parent st map_cols = Inr (fs_contribs st)"

section \<open>The blocked solve\<close>

text \<open>
  The solve routines move values between arrays that the caller may pass more than once, so
  the arrays live in an explicit heap: an address is a natural number, \<open>taucs_malloc\<close> returns
  the next unused address, and an address that is not allocated cannot be read or written.  The
  values are of an arbitrary type.
\<close>

type_synonym 'v buf = "'v option list"

definition vrd :: "'v buf \<Rightarrow> int \<Rightarrow> error + 'v" where
  "vrd a i =
     (if 0 \<le> i \<and> i < int (length a)
      then (case a ! nat i of None \<Rightarrow> Inl Uninitialised | Some v \<Rightarrow> Inr v)
      else Inl OutOfBounds)"

definition vwr :: "'v buf \<Rightarrow> int \<Rightarrow> 'v \<Rightarrow> error + 'v buf" where
  "vwr a i v =
     (if 0 \<le> i \<and> i < int (length a) then Inr (a[nat i := Some v]) else Inl OutOfBounds)"

record 'v heap =
  hp_cells :: "nat \<Rightarrow> 'v buf option"
  hp_brk :: nat

definition hp_get :: "'v heap \<Rightarrow> nat \<Rightarrow> error + 'v buf" where
  "hp_get h a =
     (if a < hp_brk h
      then (case hp_cells h a of None \<Rightarrow> Inl NullPointer | Some b \<Rightarrow> Inr b)
      else Inl NullPointer)"

definition hp_put :: "'v heap \<Rightarrow> nat \<Rightarrow> 'v buf \<Rightarrow> 'v heap" where
  "hp_put h a b = h \<lparr> hp_cells := (hp_cells h)(a := Some b) \<rparr>"

definition hp_rd :: "'v heap \<Rightarrow> nat \<Rightarrow> int \<Rightarrow> error + 'v" where
  "hp_rd h a i = bnd (hp_get h a) (\<lambda>b. vrd b i)"

definition hp_wr :: "'v heap \<Rightarrow> nat \<Rightarrow> int \<Rightarrow> 'v \<Rightarrow> error + 'v heap" where
  "hp_wr h a i v = bnd (hp_get h a) (\<lambda>b. bnd (vwr b i v) (\<lambda>b'. Inr (hp_put h a b')))"

definition taucs_malloc :: "'v heap \<Rightarrow> int \<Rightarrow> nat \<times> 'v heap" where
  "taucs_malloc h k =
     (hp_brk h,
      \<lparr> hp_cells = (hp_cells h)(hp_brk h := Some (replicate (nat k) None)),
        hp_brk = Suc (hp_brk h) \<rparr>)"

definition taucs_free :: "'v heap \<Rightarrow> nat \<Rightarrow> 'v heap" where
  "taucs_free h a = h \<lparr> hp_cells := (hp_cells h)(a := None) \<rparr>"

text \<open>\<open>memcpy(dst, src, k)\<close> between two arrays of the heap.\<close>

definition hp_memcpy :: "'v heap \<Rightarrow> nat \<Rightarrow> nat \<Rightarrow> int \<Rightarrow> error + 'v heap" where
  "hp_memcpy h dst src k =
     bnd (hp_get h src) (\<lambda>s.
     bnd (hp_get h dst) (\<lambda>d.
     if k \<le> int (length s) \<and> k \<le> int (length d)
     then Inr (hp_put h dst (take (nat k) s @ drop (nat k) d))
     else Inl OutOfBounds))"

text \<open>\<open>struct taucs_multilu_factor_st\<close>, with the index part of its blocks.\<close>

record multilu_factor =
  mf_num_blocks :: int
  mf_blocks :: "factor_block option list"
  mf_m :: int
  mf_n :: int

text \<open>
  Modelled from the spec: the dense kernels \<open>C_UnitLowerLeftTriSolve\<close>, \<open>C_CaddMAB\<close>,
  \<open>C_CaddMATB\<close> and \<open>C_UpperLeftTriSolve\<close> are not part of the file.  Each of them reads the
  values of one block and its operands and writes its last operand only; what it writes there is
  left open.  A kernel gets the number of the block (for the values of the block), the number of
  right-hand sides, and for each operand its contents, the offset of the pointer it is called
  with and its leading dimension; it returns the new contents of its last operand.
\<close>

record 'v dense_kernels =
  k_UnitLowerLeftTriSolve :: "int \<Rightarrow> int \<Rightarrow> int \<Rightarrow> int \<Rightarrow> 'v buf \<Rightarrow> error + 'v buf"
  k_CaddMAB :: "int \<Rightarrow> int \<Rightarrow> int \<Rightarrow> int \<Rightarrow> 'v buf \<Rightarrow> int \<Rightarrow> 'v buf \<Rightarrow> error + 'v buf"
  k_CaddMATB :: "int \<Rightarrow> int \<Rightarrow> int \<Rightarrow> 'v buf \<Rightarrow> int \<Rightarrow> int \<Rightarrow> 'v buf \<Rightarrow> error + 'v buf"
  k_UpperLeftTriSolve :: "int \<Rightarrow> int \<Rightarrow> int \<Rightarrow> int \<Rightarrow> 'v buf \<Rightarrow> error + 'v buf"

text \<open>
  The two copy loops of the solve, over the right-hand sides \<open>c\<close> and the entries \<open>j\<close>:
  \<open>dst[doff + j + c * ld_d] = src[idx[ioff + j] + c * ld_s]\<close> and
  \<open>dst[idx[ioff + j] + c * ld_d] = src[soff + j + c * ld_s]\<close>.
\<close>

definition gather ::
    "nat \<Rightarrow> int \<Rightarrow> int \<Rightarrow> nat \<Rightarrow> int \<Rightarrow> arr \<Rightarrow> int \<Rightarrow> int \<Rightarrow> int \<Rightarrow> 'v heap \<Rightarrow> error + 'v heap" where
  "gather dst doff ld_d src ld_s idx ioff cnt n h =
     for_loop 0 n (\<lambda>c. for_loop 0 cnt (\<lambda>j h1.
       bnd (rd idx (ioff + j)) (\<lambda>r.
       bnd (hp_rd h1 src (r + c * ld_s)) (\<lambda>v.
       hp_wr h1 dst (doff + j + c * ld_d) v)))) h"

definition scatter ::
    "nat \<Rightarrow> int \<Rightarrow> arr \<Rightarrow> int \<Rightarrow> nat \<Rightarrow> int \<Rightarrow> int \<Rightarrow> int \<Rightarrow> int \<Rightarrow> 'v heap \<Rightarrow> error + 'v heap" where
  "scatter dst ld_d idx ioff src soff ld_s cnt n h =
     for_loop 0 n (\<lambda>c. for_loop 0 cnt (\<lambda>j h1.
       bnd (rd idx (ioff + j)) (\<lambda>r.
       bnd (hp_rd h1 src (soff + j + c * ld_s)) (\<lambda>v.
       hp_wr h1 dst (r + c * ld_d) v)))) h"

text \<open>One block of \<open>solve_blocked_L\<close>; the state is the offset of the pointer \<open>X\<close> and the
  heap.\<close>

definition sl_block_step ::
    "'v dense_kernels \<Rightarrow> multilu_factor \<Rightarrow> nat \<Rightarrow> nat \<Rightarrow> nat \<Rightarrow> int \<Rightarrow> int \<Rightarrow> int \<Rightarrow> int
     \<Rightarrow> int \<times> 'v heap \<Rightarrow> error + int \<times> 'v heap" where
  "sl_block_step K F X B T n ld_B ld_X i p =
     (case p of (xoff, h) \<Rightarrow>
        let ld_T = mf_n F in
        bnd (get_block (mf_blocks F) i) (\<lambda>block.
        bnd (gather X xoff ld_X B ld_B (fb_pivot_rows block) 0 (fb_row_pivots_number block) n h)
          (\<lambda>h1.
        bnd (hp_get h1 X) (\<lambda>x1.
        bnd (k_UnitLowerLeftTriSolve K i n xoff ld_X x1) (\<lambda>x2.
        let h2 = hp_put h1 X x2 in
        bnd (if fb_non_pivot_rows_number block > 0
             then
               bnd (gather T 0 ld_T B ld_B (fb_pivot_rows block) (fb_row_pivots_number block)
                      (fb_non_pivot_rows_number block) n h2) (\<lambda>h3.
               bnd (hp_get h3 X) (\<lambda>x3.
               bnd (hp_get h3 T) (\<lambda>t3.
               bnd (k_CaddMAB K i n xoff ld_X x3 ld_T t3) (\<lambda>t4.
               scatter B ld_B (fb_pivot_rows block) (fb_row_pivots_number block) T 0 ld_T
                 (fb_non_pivot_rows_number block) n (hp_put h3 T t4)))))
             else Inr h2) (\<lambda>h5.
        Inr (xoff + fb_row_pivots_number block, h5)))))))"

definition solve_blocked_L ::
    "'v dense_kernels \<Rightarrow> multilu_factor \<Rightarrow> nat \<Rightarrow> nat \<Rightarrow> nat \<Rightarrow> int \<Rightarrow> int \<Rightarrow> int \<Rightarrow> 'v heap
     \<Rightarrow> error + 'v heap" where
  "solve_blocked_L K F X B T n ld_B ld_X h =
     bnd (for_loop 0 (mf_num_blocks F) (sl_block_step K F X B T n ld_B ld_X) (0, h))
       (\<lambda>(xoff, h'). Inr h')"

text \<open>One block of \<open>solve_blocked_U\<close>; the state is the offset of the pointer \<open>B\<close> and the
  heap.\<close>

definition su_block_step ::
    "'v dense_kernels \<Rightarrow> multilu_factor \<Rightarrow> nat \<Rightarrow> nat \<Rightarrow> nat \<Rightarrow> int \<Rightarrow> int \<Rightarrow> int \<Rightarrow> int
     \<Rightarrow> int \<times> 'v heap \<Rightarrow> error + int \<times> 'v heap" where
  "su_block_step K F X B T n ld_B ld_X i p =
     (case p of (boff0, h) \<Rightarrow>
        let ld_T = mf_n F in
        bnd (get_block (mf_blocks F) i) (\<lambda>block.
        let boff = boff0 - fb_col_pivots_number block in
        bnd (if fb_non_pivot_cols_number block > 0
             then
               bnd (gather T 0 ld_T X ld_X (fb_pivot_cols block) (fb_col_pivots_number block)
                      (fb_non_pivot_cols_number block) n h) (\<lambda>h1.
               bnd (hp_get h1 T) (\<lambda>t1.
               bnd (hp_get h1 B) (\<lambda>b1.
               bnd (k_CaddMATB K i n ld_T t1 boff ld_B b1) (\<lambda>b2.
               Inr (hp_put h1 B b2)))))
             else Inr h) (\<lambda>h2.
        bnd (hp_get h2 B) (\<lambda>b3.
        bnd (k_UpperLeftTriSolve K i n boff ld_B b3) (\<lambda>b4.
        bnd (scatter X ld_X (fb_pivot_cols block) 0 B boff ld_B (fb_col_pivots_number block) n
               (hp_put h2 B b4)) (\<lambda>h4.
        Inr (boff, h4)))))))"

definition solve_blocked_U ::
    "'v dense_kernels \<Rightarrow> multilu_factor \<Rightarrow> nat \<Rightarrow> nat \<Rightarrow> nat \<Rightarrow> int \<Rightarrow> int \<Rightarrow> int \<Rightarrow> 'v heap
     \<Rightarrow> error + 'v heap" where
  "solve_blocked_U K F X B T n ld_B ld_X h =
     bnd (for_down (mf_num_blocks F - 1) 0 (su_block_step K F X B T n ld_B ld_X) (mf_n F, h))
       (\<lambda>(boff, h'). Inr h')"

datatype solve_status = TAUCS_SUCCESS | TAUCS_ERROR_NOMEM

text \<open>
  \<open>multilu_solve_many\<close>.  \<open>X\<close> and \<open>B\<close> are the addresses the caller passes; \<open>mem\<close> says
  whether the three allocations succeed.  The result is the returned status and the heap the
  caller finds.
\<close>

definition multilu_solve_many ::
    "'v dense_kernels \<Rightarrow> bool \<Rightarrow> multilu_factor \<Rightarrow> int \<Rightarrow> nat \<Rightarrow> int \<Rightarrow> nat \<Rightarrow> int \<Rightarrow> 'v heap
     \<Rightarrow> error + solve_status \<times> 'v heap" where
  "multilu_solve_many K mem F n X ld_X B ld_B h =
     (if \<not> mem then Inr (TAUCS_ERROR_NOMEM, h)
      else
        (case taucs_malloc h (n * ld_B) of (B_Copy, h1) \<Rightarrow>
         case taucs_malloc h1 (n * mf_n F) of (Y, h2) \<Rightarrow>
         case taucs_malloc h2 (n * mf_n F) of (T, h3) \<Rightarrow>
           bnd (hp_memcpy h3 B_Copy B (n * ld_B)) (\<lambda>h4.
           bnd (solve_blocked_L K F Y B_Copy T n ld_B (mf_n F) h4) (\<lambda>h5.
           bnd (solve_blocked_U K F X Y T n (mf_n F) ld_X h5) (\<lambda>h6.
           Inr (TAUCS_SUCCESS, taucs_free (taucs_free (taucs_free h6 T) Y) B_Copy))))))"

text \<open>\<open>multilu_solve\<close>: one right-hand side, both leading dimensions \<open>F->m\<close>.\<close>

definition multilu_solve ::
    "'v dense_kernels \<Rightarrow> bool \<Rightarrow> multilu_factor \<Rightarrow> nat \<Rightarrow> nat \<Rightarrow> 'v heap
     \<Rightarrow> error + solve_status \<times> 'v heap" where
  "multilu_solve K mem F x b h = multilu_solve_many K mem F 1 x (mf_m F) b (mf_m F) h"

text \<open>A step changes no array of the heap outside the set \<open>W\<close> and allocates nothing.\<close>

definition hp_frame :: "nat set \<Rightarrow> 'v heap \<Rightarrow> 'v heap \<Rightarrow> bool" where
  "hp_frame W h h' \<longleftrightarrow>
     hp_brk h' = hp_brk h \<and> (\<forall>a. a \<notin> W \<longrightarrow> hp_cells h' a = hp_cells h a)"





section \<open>The sequential numeric factorization\<close>





subsection \<open>focus\_supercolumn\<close>











subsection \<open>factorize\_l\_portion\<close>








subsection \<open>The top level\<close>








text \<open>What a step on supercolumn \<open>i\<close> may do to the blocks: their number stays, the other blocks
  stay, and the block of \<open>i\<close> keeps being there with its valid flag.\<close>

definition blocks_frame :: "int \<Rightarrow> factor_block option list \<Rightarrow> factor_block option list \<Rightarrow> bool" where
  "blocks_frame i blocks blocks' \<longleftrightarrow>
     length blocks' = length blocks \<and>
     (\<forall>j. j \<noteq> nat i \<longrightarrow> blocks' ! j = blocks ! j) \<and>
     map_option fb_valid (blocks' ! nat i) = map_option fb_valid (blocks ! nat i)"

text \<open>
  The 1 by 1 matrix \<open>(0)\<close>, with its entry stored, and its symbolic structure.  No row of it has
  a pivot that meets a threshold: the kernel \<open>lu_no_pivot\<close> reports that it found none and leaves
  the rows as they are.
\<close>

definition zero1 :: "int ccs_matrix" where
  "zero1 =
     \<lparr> ccs_m = 1, ccs_n = 1, colptr = from_list [0, 1], rowind = from_list [0],
       taucs_values = [0] \<rparr>"





text \<open>The symbolic structure of \<open>zero1\<close>: one supercolumn of one column.\<close>

definition zero1_symbolic :: multilu_symbolic where
  "zero1_symbolic =
     \<lparr> sym_n = 1, columns = [Some 0, None], number_supercolumns = 1,
       start_supercolumn = [Some 0, None], end_supercolumn = [Some 0, None],
       supercolumn_size = [Some 1, None], supercolumn_covered_columns = [Some 1, None],
       l_size = [Some 1, None], u_size = [Some 1, None],
       etree =
         \<lparr> first_root = 0, parent = [Some (- 1), None],
           first_child = [Some (- 1), Some 0], next_child = [Some (- 1), None],
           first_desc_index = [Some (- 1), None], last_desc_index = [Some (- 1), None] \<rparr> \<rparr>"

section \<open>Basic facts about arrays and loops\<close>

lemma bnd_Inr_iff: "bnd m f = Inr y \<longleftrightarrow> (\<exists>x. m = Inr x \<and> f x = Inr y)"
  by (cases m) (simp_all add: bnd_def)

lemma bnd_simps [simp]: "bnd (Inr x) f = f x" "bnd (Inl e) f = Inl e"
  by (simp_all add: bnd_def)

lemma rd_Inr_iff: "rd a i = Inr v \<longleftrightarrow> 0 \<le> i \<and> i < int (length a) \<and> a ! nat i = Some v"
  by (auto simp: rd_def split: option.splits)

lemma wr_Inr_iff: "wr a i v = Inr a' \<longleftrightarrow> 0 \<le> i \<and> i < int (length a) \<and> a' = a[nat i := Some v]"
  by (auto simp: wr_def)

lemma wr_length: "wr a i v = Inr a' \<Longrightarrow> length a' = length a"
  by (auto simp: wr_Inr_iff)

lemma rd_wr: "wr a i v = Inr a' \<Longrightarrow> rd a' j = (if j = i then Inr v else rd a j)"
  by (auto simp: wr_Inr_iff rd_def nth_list_update nat_eq_iff)

lemma rd_wr_same: "wr a i v = Inr a' \<Longrightarrow> rd a' i = Inr v"
  by (simp add: rd_wr)

lemma rd_wr_other: "wr a i v = Inr a' \<Longrightarrow> j \<noteq> i \<Longrightarrow> rd a' j = rd a j"
  by (simp add: rd_wr)

lemma for_loop_rule:
  assumes "for_loop lo hi body s = Inr s'" and "lo \<le> hi" and "I lo s"
    and "\<And>i t t'. lo \<le> i \<Longrightarrow> i < hi \<Longrightarrow> I i t \<Longrightarrow> body i t = Inr t' \<Longrightarrow> I (i + 1) t'"
  shows "I hi s'"
  using assms
proof (induction lo hi body s rule: for_loop.induct)
  case (1 i hi body s)
  show ?case
  proof (cases "i < hi")
    case True
    with "1.prems"(1) obtain t where t: "body i s = Inr t" and rest: "for_loop (i + 1) hi body t = Inr s'"
      by (subst (asm) for_loop.simps) (auto split: sum.splits)
    have "I (i + 1) t" using "1.prems"(4)[OF _ True "1.prems"(3) t] by simp
    then show ?thesis
      using "1.IH"[OF True t rest] True "1.prems"(4) by auto
  next
    case False
    with "1.prems" show ?thesis
      by (subst (asm) for_loop.simps) auto
  qed
qed

lemma for_loop_empty: "hi \<le> lo \<Longrightarrow> for_loop lo hi body s = Inr s"
  by (subst for_loop.simps) auto

lemma for_loop_inv:
  assumes "for_loop lo hi body s = Inr s'" and "P s"
    and "\<And>i t t'. lo \<le> i \<Longrightarrow> i < hi \<Longrightarrow> P t \<Longrightarrow> body i t = Inr t' \<Longrightarrow> P t'"
  shows "P s'"
proof (cases "lo \<le> hi")
  case True
  show ?thesis
    by (rule for_loop_rule[OF assms(1) True, where I = "\<lambda>i. P"]) (use assms in auto)
next
  case False
  then have "for_loop lo hi body s = Inr s" by (simp add: for_loop_empty)
  with assms show ?thesis by simp
qed

lemma rd_neg: "i < 0 \<Longrightarrow> rd a i \<noteq> Inr v"
  by (simp add: rd_def)

lemma rd_malloc: "rd (malloc k) i \<noteq> Inr v"
  by (auto simp: rd_def malloc_def)

section \<open>The relaxation pass\<close>

lemma forward_parentsD:
  "forward_parents k par \<Longrightarrow> 0 \<le> i \<Longrightarrow> i < k \<Longrightarrow> \<exists>p. rd par i = Inr p \<and> (p = NONE \<or> i < p)"
proof -
  assume a: "forward_parents k par" "0 \<le> i" "i < k"
  then have "i \<in> set [0..k - 1]" by simp
  with a(1) have "case rd par i of Inl e \<Rightarrow> False | Inr p \<Rightarrow> p = NONE \<or> i < p"
    unfolding forward_parents_def list_all_iff by blast
  then show ?thesis by (cases "rd par i") auto
qed

lemma ds_relax_step_effect:
  assumes step: "ds_relax_step scp dc i st = Inr st'"
    and le: "rx_sc_num st \<le> i"
    and keep: "\<forall>k. rx_sc_num st < k \<longrightarrow> rd (rx_lastcol st) k = rd lastcol0 k"
    and fwd: "\<exists>p. rd scp i = Inr p \<and> (p = NONE \<or> i < p)"
  shows "rd (rx_map_fsc_rsc st') i = Inr (rx_sc_num st)"
    and "\<forall>j. j \<noteq> i \<longrightarrow> rd (rx_map_fsc_rsc st') j = rd (rx_map_fsc_rsc st) j"
    and "rx_sc_num st' = rx_sc_num st + (if relax_closes scp lastcol0 dc i then 1 else 0)"
    and "\<forall>k. rx_sc_num st' < k \<longrightarrow> rd (rx_lastcol st') k = rd lastcol0 k"
    and "wr (rx_lastcol st) (rx_sc_num st) i = Inr (rx_lastcol st')"
proof -
  from fwd obtain p where p: "rd scp i = Inr p" and pf: "p = NONE \<or> i < p" by blast
  from step p obtain z mp lc where
    z: "rd (rx_sc_size st) i = Inr z" and
    mp: "wr (rx_map_fsc_rsc st) i (rx_sc_num st) = Inr mp" and
    lc: "wr (rx_lastcol st) (rx_sc_num st) i = Inr lc"
    by (auto simp: ds_relax_step_def bnd_Inr_iff)
  have lcp: "p \<noteq> NONE \<Longrightarrow> rd lc p = rd lastcol0 p"
    using pf le keep rd_wr_other[OF lc, of p] by auto
  obtain ch where ch: "(if p \<noteq> NONE
          then bnd (rd lc p) (\<lambda>last_of_parent.
               bnd (rd dc last_of_parent) (\<lambda>d.
               Inr (d \<ge> MULTILU_RELAX_RULE_SIZE)))
          else Inr False) = Inr ch"
    using step p z mp lc by (auto simp: ds_relax_step_def bnd_Inr_iff)
  have chv: "ch = relax_closes scp lastcol0 dc i"
    using ch lcp p by (auto simp: relax_closes_def bnd_Inr_iff split: if_splits sum.splits)
  from step p z mp lc ch have st': "(if ch
        then bnd (wr (rx_sc_size st) (rx_sc_num st) (rx_cscs st + z)) (\<lambda>scs.
             Inr (st \<lparr> rx_map_fsc_rsc := mp, rx_lastcol := lc, rx_sc_size := scs, rx_cscs := 0, rx_sc_num := rx_sc_num st + 1 \<rparr>))
        else Inr (st \<lparr> rx_map_fsc_rsc := mp, rx_lastcol := lc, rx_cscs := rx_cscs st + z \<rparr>)) = Inr st'"
    by (simp add: ds_relax_step_def Let_def)
  then have m': "rx_map_fsc_rsc st' = mp" and l': "rx_lastcol st' = lc"
    and n': "rx_sc_num st' = rx_sc_num st + (if ch then 1 else 0)"
    by (auto simp: bnd_Inr_iff split: if_splits)
  show "rd (rx_map_fsc_rsc st') i = Inr (rx_sc_num st)"
    using m' rd_wr_same[OF mp] by simp
  show "\<forall>j. j \<noteq> i \<longrightarrow> rd (rx_map_fsc_rsc st') j = rd (rx_map_fsc_rsc st) j"
    using m' rd_wr_other[OF mp] by simp
  show "rx_sc_num st' = rx_sc_num st + (if relax_closes scp lastcol0 dc i then 1 else 0)"
    using n' chv by simp
  show "\<forall>k. rx_sc_num st' < k \<longrightarrow> rd (rx_lastcol st') k = rd lastcol0 k"
    using l' n' keep rd_wr_other[OF lc] by (auto split: if_splits)
  show "wr (rx_lastcol st) (rx_sc_num st) i = Inr (rx_lastcol st')"
    using l' lc by simp
qed

definition relax_inv :: "arr \<Rightarrow> arr \<Rightarrow> arr \<Rightarrow> int \<Rightarrow> relax_state \<Rightarrow> bool" where
  "relax_inv scp lastcol0 dc i st \<longleftrightarrow>
     rx_sc_num st \<le> i \<and>
     (\<forall>k. rx_sc_num st < k \<longrightarrow> rd (rx_lastcol st) k = rd lastcol0 k) \<and>
     (\<forall>j. 0 \<le> j \<and> j < i \<longrightarrow>
        (\<exists>a. rd (rx_map_fsc_rsc st) j = Inr a \<and>
             (if j + 1 < i
              then rd (rx_map_fsc_rsc st) (j + 1)
                   = Inr (a + (if relax_closes scp lastcol0 dc j then 1 else 0))
              else rx_sc_num st = a + (if relax_closes scp lastcol0 dc j then 1 else 0))))"

lemma relax_inv_step:
  assumes step: "ds_relax_step scp dc i st = Inr st'"
    and inv: "relax_inv scp lastcol0 dc i st"
    and fwd: "\<exists>p. rd scp i = Inr p \<and> (p = NONE \<or> i < p)"
    and i0: "0 \<le> i"
  shows "relax_inv scp lastcol0 dc (i + 1) st'"
proof -
  from inv have le: "rx_sc_num st \<le> i"
    and keep: "\<forall>k. rx_sc_num st < k \<longrightarrow> rd (rx_lastcol st) k = rd lastcol0 k"
    by (auto simp: relax_inv_def)
  note eff = ds_relax_step_effect[OF step le keep fwd]
  have "rx_sc_num st' \<le> i + 1" using eff(3) le by (auto split: if_splits)
  moreover have "\<exists>a. rd (rx_map_fsc_rsc st') j = Inr a \<and>
             (if j + 1 < i + 1
              then rd (rx_map_fsc_rsc st') (j + 1)
                   = Inr (a + (if relax_closes scp lastcol0 dc j then 1 else 0))
              else rx_sc_num st' = a + (if relax_closes scp lastcol0 dc j then 1 else 0))"
    if j: "0 \<le> j" "j < i + 1" for j
  proof (cases "j = i")
    case True
    then show ?thesis using eff(1) eff(3) by simp
  next
    case False
    with j have ji: "j < i" by simp
    from inv j(1) ji obtain a where a: "rd (rx_map_fsc_rsc st) j = Inr a"
      and nx: "if j + 1 < i
              then rd (rx_map_fsc_rsc st) (j + 1)
                   = Inr (a + (if relax_closes scp lastcol0 dc j then 1 else 0))
              else rx_sc_num st = a + (if relax_closes scp lastcol0 dc j then 1 else 0)"
      unfolding relax_inv_def by blast
    have a': "rd (rx_map_fsc_rsc st') j = Inr a" using eff(2) False a by simp
    show ?thesis
    proof (cases "j + 1 < i")
      case True
      then show ?thesis using a' nx eff(2) ji by auto
    next
      case False
      then have "j + 1 = i" using ji by simp
      then show ?thesis using a' nx eff(1) ji by auto
    qed
  qed
  ultimately show ?thesis using eff(4) unfolding relax_inv_def by blast
qed

lemma relax_loop_inv:
  assumes run: "for_loop 0 fsc_num (ds_relax_step scp dc)
            \<lparr> rx_sc_num = 0, rx_cscs = 0, rx_map_fsc_rsc = mp, rx_lastcol = lastcol0, rx_sc_size = scs \<rparr> = Inr st"
    and fwd: "forward_parents fsc_num scp" and n0: "0 \<le> fsc_num"
  shows "relax_inv scp lastcol0 dc fsc_num st"
proof (rule for_loop_rule[OF run n0, where I = "relax_inv scp lastcol0 dc"])
  show "relax_inv scp lastcol0 dc 0 \<lparr> rx_sc_num = 0, rx_cscs = 0, rx_map_fsc_rsc = mp, rx_lastcol = lastcol0, rx_sc_size = scs \<rparr>"
    by (auto simp: relax_inv_def)
next
  fix i t t'
  assume "0 \<le> i" "i < fsc_num" "relax_inv scp lastcol0 dc i t" "ds_relax_step scp dc i t = Inr t'"
  then show "relax_inv scp lastcol0 dc (i + 1) t'"
    using relax_inv_step forward_parentsD[OF fwd] by blast
qed

text \<open>
  Claim C5, as amended.  In the relaxation pass a supercolumn closes the current cluster exactly
  when it has a parent and the last column of the parent has at least
  \<open>MULTILU_RELAX_RULE_SIZE\<close> = 20 descendants: then the next supercolumn starts the next
  cluster.  A supercolumn without a parent, or whose parent's last column has fewer than 20
  descendants, stays in a cluster with the supercolumn that follows it.
\<close>

theorem relax_merges_next_unless_parent_large:
  assumes run: "ds_relax scp dc fsc_num mp lastcol0 scs = Inr rx"
    and fwd: "forward_parents fsc_num scp"
    and i: "0 \<le> i" "i + 1 < fsc_num"
  shows "\<exists>a. rd (rx_map_fsc_rsc rx) i = Inr a \<and>
             rd (rx_map_fsc_rsc rx) (i + 1)
               = Inr (if relax_closes scp lastcol0 dc i then a + 1 else a)"
proof -
  from run obtain st where loop: "for_loop 0 fsc_num (ds_relax_step scp dc)
            \<lparr> rx_sc_num = 0, rx_cscs = 0, rx_map_fsc_rsc = mp, rx_lastcol = lastcol0,
              rx_sc_size = scs \<rparr> = Inr st"
    and m: "rx_map_fsc_rsc rx = rx_map_fsc_rsc st"
    by (auto simp: ds_relax_def bnd_Inr_iff)
  have "relax_inv scp lastcol0 dc fsc_num st"
    using relax_loop_inv[OF loop fwd] i by simp
  then have "\<forall>j. 0 \<le> j \<and> j < fsc_num \<longrightarrow>
        (\<exists>a. rd (rx_map_fsc_rsc st) j = Inr a \<and>
             (if j + 1 < fsc_num
              then rd (rx_map_fsc_rsc st) (j + 1)
                   = Inr (a + (if relax_closes scp lastcol0 dc j then 1 else 0))
              else rx_sc_num st = a + (if relax_closes scp lastcol0 dc j then 1 else 0)))"
    unfolding relax_inv_def by blast
  from this[rule_format, of i] i obtain a where "rd (rx_map_fsc_rsc st) i = Inr a"
    "rd (rx_map_fsc_rsc st) (i + 1)
       = Inr (a + (if relax_closes scp lastcol0 dc i then 1 else 0))"
    by auto
  then show ?thesis using m by auto
qed

text \<open>The theorem at the star of twenty leaves: every leaf has the root as its parent, the
  root's column has 21 descendants, and so the first leaf closes its cluster.\<close>

theorem relax_merges_next_unless_parent_large_witness:
  "relax_closes star_parent star_lastcol star_desc_count 0 \<and>
   (\<exists>rx. ds_relax star_parent star_desc_count 21 (malloc 21) star_lastcol
            (from_list (replicate 21 1)) = Inr rx \<and>
      (\<exists>a. rd (rx_map_fsc_rsc rx) 0 = Inr a \<and> rd (rx_map_fsc_rsc rx) (0 + 1) = Inr (a + 1)))"
proof -
  have fwd: "forward_parents 21 star_parent"
    by code_simp
  have cl: "relax_closes star_parent star_lastcol star_desc_count 0"
    by code_simp
  have "case ds_relax star_parent star_desc_count 21 (malloc 21) star_lastcol
            (from_list (replicate 21 1)) of Inl e \<Rightarrow> False | Inr rx \<Rightarrow> True"
    by code_simp
  then have "\<exists>rx. ds_relax star_parent star_desc_count 21 (malloc 21) star_lastcol
            (from_list (replicate 21 1)) = Inr rx"
    by (simp split: sum.splits)
  then obtain rx where run: "ds_relax star_parent star_desc_count 21 (malloc 21) star_lastcol
            (from_list (replicate 21 1)) = Inr rx" ..
  from relax_merges_next_unless_parent_large[OF run fwd, of 0] cl run
  show ?thesis by auto
qed

text \<open>
  Claim C5 as stated fails on the arrow matrix.  The columns 0 and 1 are supercolumns of their
  own, their parent is the supercolumn of column 2, and that column has 3 descendants, fewer
  than 20.  By the claim they are not merged; the code returns one supercolumn of three columns.
\<close>

theorem relax_merges_small_parent_counterexample:
  "detect_supercol True arrow3 (from_list [0, 1, 2]) (from_list [0, 0, 0]) (from_list [1, 1, 3])
     (from_list [1, 1, 1]) (from_list [2, 2, 1]) (from_list [0, 1, 2]) (malloc 4) (malloc 4)
   = Inr (1, [Some 3, Some 1, Some 1, None], [Some (- 1), Some 2, Some (- 1), None])"
  by code_simp

section \<open>detect\_supercol: the loop over the columns\<close>

lemma ds_nz_step_frame:
  assumes "ds_nz_step a_n a_rowind base col i st = Inr st'"
  shows "ds_map_col_supercol st' = ds_map_col_supercol st"
    and "ds_fsc_num st' = ds_fsc_num st"
    and "ds_lastcol st' = ds_lastcol st"
    and "ds_sc_parent st' = ds_sc_parent st \<or>
         (\<exists>r f. rd (ds_map_col_supercol st) r = Inr f \<and>
                wr (ds_sc_parent st) f col = Inr (ds_sc_parent st'))"
  using assms
  by (auto simp: ds_nz_step_def bnd_Inr_iff uf_union_def split: if_splits prod.splits)

lemma ds_nz_inv_step:
  assumes step: "ds_nz_step a_n a_rowind base col i st = Inr st'"
    and inv: "ds_nz_inv n col st0 st"
    and top: "ds_inv n col st0"
  shows "ds_nz_inv n col st0 st'"
proof -
  note fr = ds_nz_step_frame[OF step]
  have par: "p = NONE \<or> (p = col \<and> f \<le> ds_fsc_num st0)
        \<or> (\<exists>g. rd (ds_map_col_supercol st0) p = Inr g \<and> f \<le> g)"
    if rdp: "rd (ds_sc_parent st') f = Inr p" and fn: "f < n" for f p
  proof -
    from fr(4) show ?thesis
    proof
      assume "ds_sc_parent st' = ds_sc_parent st"
      with rdp fn inv show ?thesis unfolding ds_nz_inv_def by metis
    next
      assume "\<exists>r f. rd (ds_map_col_supercol st) r = Inr f \<and>
                wr (ds_sc_parent st) f col = Inr (ds_sc_parent st')"
      then obtain r f0 where r: "rd (ds_map_col_supercol st) r = Inr f0"
        and w: "wr (ds_sc_parent st) f0 col = Inr (ds_sc_parent st')" by blast
      have f0: "f0 \<le> ds_fsc_num st0"
        using r inv top unfolding ds_nz_inv_def ds_inv_def by metis
      show ?thesis
      proof (cases "f = f0")
        case True
        then have "p = col" using rdp rd_wr_same[OF w] by simp
        then show ?thesis using True f0 by simp
      next
        case False
        then have "rd (ds_sc_parent st) f = Inr p" using rdp rd_wr_other[OF w] by simp
        then show ?thesis using inv fn unfolding ds_nz_inv_def by metis
      qed
    qed
  qed
  show ?thesis
    unfolding ds_nz_inv_def using fr(1-3) inv par
    by (simp add: ds_nz_inv_def)
qed

lemma ds_chain_check_frame:
  assumes "ds_chain_check lsz usz postorder col st = Inr (b, st')"
  shows "ds_map_col_supercol st' = ds_map_col_supercol st"
    and "ds_fsc_num st' = ds_fsc_num st"
    and "ds_lastcol st' = ds_lastcol st"
    and "ds_sc_parent st' = ds_sc_parent st"
  using assms by (auto simp: ds_chain_check_def bnd_Inr_iff Let_def)

lemma ds_close_step_effect:
  assumes "ds_close_step lsz usz postorder col b st = Inr st'"
  shows "ds_sc_parent st' = ds_sc_parent st"
    and "ds_fsc_num st \<le> ds_fsc_num st'" and "ds_fsc_num st' \<le> ds_fsc_num st + 1"
    and "wr (ds_map_col_supercol st) col (ds_fsc_num st') = Inr (ds_map_col_supercol st')"
    and "wr (ds_lastcol st) (ds_fsc_num st') col = Inr (ds_lastcol st')"
  using assms by (auto simp: ds_close_step_def bnd_Inr_iff Let_def split: if_splits)

lemma ds_inv_step:
  assumes step: "ds_col_step A column_order one_child lsz usz postorder col st = Inr st'"
    and inv: "ds_inv n col st"
  shows "ds_inv n (col + 1) st'"
proof -
  from step obtain c0 c1 root' st1 b0 b st2 where
    loop: "for_loop 0 (c1 - c0) (ds_nz_step (ccs_n A) (rowind A) c0 col)
            (st \<lparr> ds_cset := col, ds_root := root' \<rparr>) = Inr st1"
    and chk: "(if \<not> b0 then ds_chain_check lsz usz postorder col st1 else Inr (b0, st1))
              = Inr (b, st2)"
    and cl: "ds_close_step lsz usz postorder col b st2 = Inr st'"
    unfolding ds_col_step_def bnd_Inr_iff by (auto split: prod.splits)
  let ?st0 = "st \<lparr> ds_cset := col, ds_root := root' \<rparr>"
  have inv0: "ds_inv n col ?st0" using inv by (simp add: ds_inv_def)
  have nz0: "ds_nz_inv n col ?st0 ?st0"
    using inv unfolding ds_nz_inv_def ds_inv_def by simp blast
  have nz1: "ds_nz_inv n col ?st0 st1"
    by (rule for_loop_inv[OF loop, where P = "ds_nz_inv n col ?st0"])
       (use nz0 ds_nz_inv_step[OF _ _ inv0] in blast)+
  have st2: "ds_map_col_supercol st2 = ds_map_col_supercol st1"
     "ds_fsc_num st2 = ds_fsc_num st1" "ds_lastcol st2 = ds_lastcol st1"
     "ds_sc_parent st2 = ds_sc_parent st1"
    using chk ds_chain_check_frame[of lsz usz postorder col st1 b st2]
    by (auto split: if_splits)
  from nz1 have eq1: "ds_map_col_supercol st1 = ds_map_col_supercol st"
     "ds_fsc_num st1 = ds_fsc_num st" "ds_lastcol st1 = ds_lastcol st"
    and par1: "\<And>f p. f < n \<Longrightarrow> rd (ds_sc_parent st1) f = Inr p \<Longrightarrow>
        p = NONE \<or> (p = col \<and> f \<le> ds_fsc_num st)
        \<or> (\<exists>g. rd (ds_map_col_supercol st) p = Inr g \<and> f \<le> g)"
    unfolding ds_nz_inv_def by auto
  note ce = ds_close_step_effect[OF cl, unfolded st2 eq1]
  from inv have m: "\<And>c g. rd (ds_map_col_supercol st) c = Inr g \<Longrightarrow> c < col \<and> g \<le> ds_fsc_num st"
    and l: "\<And>k v. rd (ds_lastcol st) k = Inr v \<Longrightarrow> k \<le> ds_fsc_num st"
    and fb: "- 1 \<le> ds_fsc_num st" "ds_fsc_num st < col"
    unfolding ds_inv_def by blast+
  have A: "c < col + 1 \<and> g \<le> ds_fsc_num st'" if "rd (ds_map_col_supercol st') c = Inr g" for c g
    using that rd_wr[OF ce(4), of c] m[of c g] ce(2) by (auto split: if_splits)
  have B: "k \<le> ds_fsc_num st'" if "rd (ds_lastcol st') k = Inr v" for k v
    using that rd_wr[OF ce(5), of k] l[of k v] ce(2) by (auto split: if_splits)
  have C: "p = NONE \<or> (\<exists>g. rd (ds_map_col_supercol st') p = Inr g \<and> f \<le> g)"
    if "rd (ds_sc_parent st') f = Inr p" "f < n" for f p
  proof -
    from that have "rd (ds_sc_parent st1) f = Inr p" using ce(1) by simp
    from par1[OF that(2) this] show ?thesis
    proof (elim disjE conjE exE)
      assume "p = NONE" then show ?thesis by simp
    next
      assume "p = col" "f \<le> ds_fsc_num st"
      then show ?thesis using rd_wr_same[OF ce(4)] ce(2) by auto
    next
      fix g assume g: "rd (ds_map_col_supercol st) p = Inr g" "f \<le> g"
      then have "p \<noteq> col" using m[of p g] by auto
      then show ?thesis using g rd_wr_other[OF ce(4), of p] by auto
    qed
  qed
  have D: "- 1 \<le> ds_fsc_num st'" "ds_fsc_num st' < col + 1"
    using fb ce(2,3) by auto
  show ?thesis unfolding ds_inv_def using A B C D by blast
qed

lemma ds_init_inv:
  assumes "ds_init A sc_size sc_parent = Inr st"
  shows "ds_inv (ccs_n A) 0 st"
proof -
  from assms obtain scp where
    scp: "for_loop 0 (ccs_n A) (\<lambda>i p. wr p i NONE) sc_parent = Inr scp"
    and m: "ds_map_col_supercol st = malloc (ccs_n A)"
    and l: "ds_lastcol st = malloc (ccs_n A)"
    and p: "ds_sc_parent st = scp" and f: "ds_fsc_num st = -1"
    by (auto simp: ds_init_def bnd_Inr_iff)
  have none: "\<forall>f p. f < ccs_n A \<and> rd scp f = Inr p \<longrightarrow> p = NONE"
  proof (cases "0 \<le> ccs_n A")
    case True
    have "(\<forall>f p. f < ccs_n A \<and> rd scp f = Inr p \<longrightarrow> p = NONE)"
    proof (rule for_loop_rule[OF scp True,
            where I = "\<lambda>i t. \<forall>f p. f < i \<and> rd t f = Inr p \<longrightarrow> p = NONE"])
      show "\<forall>f p. f < 0 \<and> rd sc_parent f = Inr p \<longrightarrow> p = NONE"
        using rd_neg by blast
    next
      fix i t t'
      assume I: "\<forall>f p. f < i \<and> rd t f = Inr p \<longrightarrow> p = NONE" and w: "wr t i NONE = Inr t'"
      show "\<forall>f p. f < i + 1 \<and> rd t' f = Inr p \<longrightarrow> p = NONE"
      proof (intro allI impI, elim conjE)
        fix f p assume f: "f < i + 1" and r: "rd t' f = Inr p"
        show "p = NONE"
        proof (cases "f = i")
          case True
          then show ?thesis using r rd_wr_same[OF w] by simp
        next
          case False
          then have "f < i" "rd t f = Inr p" using f r rd_wr_other[OF w] by auto
          then show ?thesis using I by blast
        qed
      qed
    qed
    then show ?thesis .
  next
    case False
    then show ?thesis using rd_neg by (metis less_le_not_le linorder_le_cases order_less_le_trans)
  qed
  show ?thesis
    unfolding ds_inv_def using m l p f none by (simp add: rd_malloc)
qed

lemma ds_columns_post:
  assumes init: "ds_init A sc_size sc_parent = Inr st0"
    and loop: "for_loop 0 (ccs_n A) (ds_col_step A column_order one_child lsz usz postorder) st0
               = Inr st1"
  shows "0 \<le> ds_fsc_num st1 + 1"
    and "\<forall>c g. rd (ds_map_col_supercol st1) c = Inr g \<longrightarrow> g < ds_fsc_num st1 + 1"
    and "\<forall>k v. rd (ds_lastcol st1) k = Inr v \<longrightarrow> k < ds_fsc_num st1 + 1"
    and "\<forall>f p. f < ds_fsc_num st1 + 1 \<and> rd (ds_sc_parent st1) f = Inr p \<longrightarrow>
           p = NONE \<or> (\<exists>g. rd (ds_map_col_supercol st1) p = Inr g \<and> f \<le> g)"
proof -
  have "\<exists>c. ds_inv (ccs_n A) c st1 \<and> c \<le> max 0 (ccs_n A)"
  proof (cases "0 \<le> ccs_n A")
    case True
    have "ds_inv (ccs_n A) (ccs_n A) st1"
      by (rule for_loop_rule[OF loop True, where I = "ds_inv (ccs_n A)"])
         (use ds_init_inv[OF init] ds_inv_step in blast)+
    then show ?thesis using True by auto
  next
    case False
    then have "st1 = st0" using loop by (simp add: for_loop_empty)
    then show ?thesis using ds_init_inv[OF init] by auto
  qed
  then obtain c where inv: "ds_inv (ccs_n A) c st1" and c: "c \<le> max 0 (ccs_n A)" by blast
  from inv show "0 \<le> ds_fsc_num st1 + 1" by (simp add: ds_inv_def)
  from inv show "\<forall>c g. rd (ds_map_col_supercol st1) c = Inr g \<longrightarrow> g < ds_fsc_num st1 + 1"
    unfolding ds_inv_def by fastforce
  from inv show "\<forall>k v. rd (ds_lastcol st1) k = Inr v \<longrightarrow> k < ds_fsc_num st1 + 1"
    unfolding ds_inv_def by fastforce
  have "ds_fsc_num st1 + 1 \<le> max 0 (ccs_n A)" using inv c by (simp add: ds_inv_def)
  moreover have "rd (ds_sc_parent st1) f \<noteq> Inr p" if "f < 0" for f p
    using that by (simp add: rd_def)
  ultimately show "\<forall>f p. f < ds_fsc_num st1 + 1 \<and> rd (ds_sc_parent st1) f = Inr p \<longrightarrow>
           p = NONE \<or> (\<exists>g. rd (ds_map_col_supercol st1) p = Inr g \<and> f \<le> g)"
    using inv unfolding ds_inv_def
    by (metis (no_types, opaque_lifting) max_def not_less order_less_le_trans)
qed

section \<open>detect\_supercol: parents as supercolumns\<close>

lemma ds_fix_parent_step_effect:
  assumes step: "ds_fix_parent_step mp i scp = Inr scp'" and i0: "0 \<le> i"
  shows "\<forall>j. j \<noteq> i \<longrightarrow> rd scp' j = rd scp j"
    and "\<exists>p. rd scp i = Inr p \<and>
           (if p = NONE then rd scp' i = Inr NONE
            else \<exists>g. rd mp p = Inr g \<and> rd scp' i = Inr (if g = i then NONE else g))"
proof -
  from step obtain p scp1 p1 where p: "rd scp i = Inr p"
    and s1: "(if p \<noteq> NONE then bnd (rd mp p) (\<lambda>f. wr scp i f) else Inr scp) = Inr scp1"
    and p1: "rd scp1 i = Inr p1"
    and s2: "(if p1 = i then wr scp1 i NONE else Inr scp1) = Inr scp'"
    unfolding ds_fix_parent_step_def bnd_Inr_iff by blast
  have ni: "NONE \<noteq> i" using i0 by (simp add: NONE_def)
  show "\<forall>j. j \<noteq> i \<longrightarrow> rd scp' j = rd scp j"
    using s1 s2 by (auto simp: bnd_Inr_iff rd_wr split: if_splits)
  show "\<exists>p. rd scp i = Inr p \<and>
           (if p = NONE then rd scp' i = Inr NONE
            else \<exists>g. rd mp p = Inr g \<and> rd scp' i = Inr (if g = i then NONE else g))"
  proof (cases "p = NONE")
    case True
    then have "scp1 = scp" using s1 by simp
    then have "p1 = NONE" using p p1 True by simp
    then have "scp' = scp" using s2 ni \<open>scp1 = scp\<close> by simp
    then show ?thesis using p True by simp
  next
    case False
    with s1 obtain g where g: "rd mp p = Inr g" and w: "wr scp i g = Inr scp1"
      by (auto simp: bnd_Inr_iff)
    have "p1 = g" using p1 rd_wr_same[OF w] by simp
    then have "rd scp' i = Inr (if g = i then NONE else g)"
      using s2 p1 by (auto simp: rd_wr split: if_splits)
    then show ?thesis using p False g by auto
  qed
qed

lemma ds_fix_inv_step:
  assumes step: "ds_fix_parent_step mp i scp = Inr scp'"
    and inv: "ds_fix_inv F scp0 i scp" and i: "0 \<le> i" "i < F"
    and mpb: "\<forall>c g. rd mp c = Inr g \<longrightarrow> g < F"
    and par: "\<forall>f p. f < F \<and> rd scp0 f = Inr p \<longrightarrow>
                p = NONE \<or> (\<exists>g. rd mp p = Inr g \<and> f \<le> g)"
  shows "ds_fix_inv F scp0 (i + 1) scp'"
proof -
  note eff = ds_fix_parent_step_effect[OF step i(1)]
  from eff(2) obtain p where p: "rd scp i = Inr p"
    and r: "if p = NONE then rd scp' i = Inr NONE
            else \<exists>g. rd mp p = Inr g \<and> rd scp' i = Inr (if g = i then NONE else g)"
    by blast
  from inv have old: "rd scp i = rd scp0 i" by (simp add: ds_fix_inv_def)
  have new: "\<exists>q. rd scp' i = Inr q \<and> (q = NONE \<or> (i < q \<and> q < F))"
  proof (cases "p = NONE")
    case True
    then show ?thesis using r by simp
  next
    case False
    with r obtain g where g: "rd mp p = Inr g"
      and q: "rd scp' i = Inr (if g = i then NONE else g)" by auto
    from par p old i False obtain g' where "rd mp p = Inr g'" "i \<le> g'" by force
    with g have "i \<le> g" by simp
    moreover have "g < F" using mpb g by blast
    ultimately show ?thesis using q by auto
  qed
  have A: "\<exists>q. rd scp' j = Inr q \<and> (q = NONE \<or> (j < q \<and> q < F))"
    if "0 \<le> j" "j < i + 1" for j
  proof (cases "j = i")
    case True
    then show ?thesis using new by simp
  next
    case False
    then have "j < i" using that by simp
    then show ?thesis using inv that(1) eff(1) False unfolding ds_fix_inv_def by auto
  qed
  have B: "rd scp' j = rd scp0 j" if "i + 1 \<le> j" for j
    using that inv eff(1) unfolding ds_fix_inv_def by auto
  show ?thesis unfolding ds_fix_inv_def using A B by blast
qed

lemma ds_fix_parent_post:
  assumes loop: "for_loop 0 F (ds_fix_parent_step mp) scp0 = Inr scp"
    and F: "0 \<le> F"
    and mpb: "\<forall>c g. rd mp c = Inr g \<longrightarrow> g < F"
    and par: "\<forall>f p. f < F \<and> rd scp0 f = Inr p \<longrightarrow>
                p = NONE \<or> (\<exists>g. rd mp p = Inr g \<and> f \<le> g)"
  shows "\<forall>j. 0 \<le> j \<and> j < F \<longrightarrow> (\<exists>q. rd scp j = Inr q \<and> (q = NONE \<or> (j < q \<and> q < F)))"
proof -
  have "ds_fix_inv F scp0 F scp"
  proof (rule for_loop_rule[OF loop F, where I = "ds_fix_inv F scp0"])
    show "ds_fix_inv F scp0 0 scp0" by (auto simp: ds_fix_inv_def)
  next
    fix i t t'
    assume "0 \<le> i" "i < F" "ds_fix_inv F scp0 i t" "ds_fix_parent_step mp i t = Inr t'"
    then show "ds_fix_inv F scp0 (i + 1) t'"
      using ds_fix_inv_step[OF _ _ _ _ mpb par] by blast
  qed
  then show ?thesis by (simp add: ds_fix_inv_def)
qed

lemma ds_fix_parent_forward:
  assumes "\<forall>j. 0 \<le> j \<and> j < F \<longrightarrow> (\<exists>q. rd scp j = Inr q \<and> (q = NONE \<or> (j < q \<and> q < F)))"
  shows "forward_parents F scp"
  unfolding forward_parents_def list_all_iff
proof
  fix i assume "i \<in> set [0..F - 1]"
  then have "0 \<le> i \<and> i < F" by simp
  with assms obtain q where "rd scp i = Inr q" "q = NONE \<or> i < q" by blast
  then show "case rd scp i of Inl e \<Rightarrow> False | Inr p \<Rightarrow> p = NONE \<or> i < p" by simp
qed

section \<open>detect\_supercol: the clusters of the relaxation pass\<close>

lemma relax_last_inv_step:
  assumes step: "ds_relax_step scp dc i st = Inr st'"
    and inv: "relax_inv scp lastcol0 dc i st"
    and linv: "relax_last_inv scp lastcol0 dc i st"
    and fwd: "\<exists>p. rd scp i = Inr p \<and> (p = NONE \<or> i < p)"
    and i0: "0 \<le> i"
  shows "relax_last_inv scp lastcol0 dc (i + 1) st'"
proof -
  from inv have le: "rx_sc_num st \<le> i"
    and keep: "\<forall>k. rx_sc_num st < k \<longrightarrow> rd (rx_lastcol st) k = rd lastcol0 k"
    by (auto simp: relax_inv_def)
  note eff = ds_relax_step_effect[OF step le keep fwd]
  from linv have n0: "0 \<le> rx_sc_num st"
    and cl: "\<And>k. 0 \<le> k \<Longrightarrow> k < rx_sc_num st \<Longrightarrow>
        \<exists>j. rd (rx_lastcol st) k = Inr j \<and> 0 \<le> j \<and> j < i \<and>
             rd (rx_map_fsc_rsc st) j = Inr k \<and> relax_closes scp lastcol0 dc j"
    and mb: "\<And>j a. 0 \<le> j \<Longrightarrow> j < i \<Longrightarrow> rd (rx_map_fsc_rsc st) j = Inr a \<Longrightarrow>
        0 \<le> a \<and> a \<le> j \<and> a \<le> rx_sc_num st"
    unfolding relax_last_inv_def by blast+
  have n': "rx_sc_num st \<le> rx_sc_num st'" "0 \<le> rx_sc_num st'"
    using eff(3) n0 by (auto split: if_splits)
  have A: "\<exists>j. rd (rx_lastcol st') k = Inr j \<and> 0 \<le> j \<and> j < i + 1 \<and>
             rd (rx_map_fsc_rsc st') j = Inr k \<and> relax_closes scp lastcol0 dc j"
    if k: "0 \<le> k" "k < rx_sc_num st'" for k
  proof (cases "k < rx_sc_num st")
    case True
    from cl[OF k(1) True] obtain j where j: "rd (rx_lastcol st) k = Inr j" "0 \<le> j" "j < i"
      "rd (rx_map_fsc_rsc st) j = Inr k" "relax_closes scp lastcol0 dc j" by blast
    have "rd (rx_lastcol st') k = Inr j" using j(1) True rd_wr_other[OF eff(5), of k] by simp
    moreover have "rd (rx_map_fsc_rsc st') j = Inr k" using j(3,4) eff(2) by simp
    ultimately show ?thesis using j by auto
  next
    case False
    then have kk: "k = rx_sc_num st" and c: "relax_closes scp lastcol0 dc i"
      using k eff(3) by (auto split: if_splits)
    have "rd (rx_lastcol st') k = Inr i" using kk rd_wr_same[OF eff(5)] by simp
    then show ?thesis using eff(1) kk c i0 by auto
  qed
  have B: "rd (rx_lastcol st') (rx_sc_num st') = Inr (i + 1 - 1)"
    if "\<not> relax_closes scp lastcol0 dc (i + 1 - 1)"
    using that eff(3) rd_wr_same[OF eff(5)] by simp
  have C: "0 \<le> a \<and> a \<le> j \<and> a \<le> rx_sc_num st'"
    if j: "0 \<le> j" "j < i + 1" "rd (rx_map_fsc_rsc st') j = Inr a" for j a
  proof (cases "j = i")
    case True
    then have "a = rx_sc_num st" using j(3) eff(1) by simp
    then show ?thesis using True le n0 n' by simp
  next
    case False
    then have "j < i" "rd (rx_map_fsc_rsc st) j = Inr a" using j eff(2) by auto
    from mb[OF j(1) this] show ?thesis using n' by simp
  qed
  show ?thesis unfolding relax_last_inv_def using n'(2) A B C by blast
qed

lemma relax_loop_last_inv:
  assumes run: "for_loop 0 fsc_num (ds_relax_step scp dc)
            \<lparr> rx_sc_num = 0, rx_cscs = 0, rx_map_fsc_rsc = mp, rx_lastcol = lastcol0,
              rx_sc_size = scs \<rparr> = Inr st"
    and fwd: "forward_parents fsc_num scp" and n0: "0 \<le> fsc_num"
  shows "relax_inv scp lastcol0 dc fsc_num st \<and> relax_last_inv scp lastcol0 dc fsc_num st"
proof (rule for_loop_rule[OF run n0,
         where I = "\<lambda>i t. relax_inv scp lastcol0 dc i t \<and> relax_last_inv scp lastcol0 dc i t"])
  show "relax_inv scp lastcol0 dc 0 \<lparr> rx_sc_num = 0, rx_cscs = 0, rx_map_fsc_rsc = mp,
          rx_lastcol = lastcol0, rx_sc_size = scs \<rparr> \<and>
        relax_last_inv scp lastcol0 dc 0 \<lparr> rx_sc_num = 0, rx_cscs = 0, rx_map_fsc_rsc = mp,
          rx_lastcol = lastcol0, rx_sc_size = scs \<rparr>"
    by (auto simp: relax_inv_def relax_last_inv_def)
next
  fix i t t'
  assume i: "0 \<le> i" "i < fsc_num"
    and I: "relax_inv scp lastcol0 dc i t \<and> relax_last_inv scp lastcol0 dc i t"
    and step: "ds_relax_step scp dc i t = Inr t'"
  note f = forward_parentsD[OF fwd i]
  from I have I1: "relax_inv scp lastcol0 dc i t" and I2: "relax_last_inv scp lastcol0 dc i t"
    by simp_all
  show "relax_inv scp lastcol0 dc (i + 1) t' \<and> relax_last_inv scp lastcol0 dc (i + 1) t'"
    using relax_inv_step[OF step I1 f i(1)] relax_last_inv_step[OF step I1 I2 f i(1)] by simp
qed

text \<open>The cluster numbers never decrease along the supercolumns, and increase after a
  supercolumn that closes its cluster.\<close>

lemma relax_map_mono:
  assumes inv: "relax_inv scp lastcol0 dc F st"
    and j: "0 \<le> j" "j \<le> j'" "j' < F"
    and a: "rd (rx_map_fsc_rsc st) j = Inr a" and b: "rd (rx_map_fsc_rsc st) j' = Inr b"
  shows "a \<le> b \<and> (j < j' \<and> relax_closes scp lastcol0 dc j \<longrightarrow> a < b)"
  using j a b
proof (induction "nat (j' - j)" arbitrary: j' b)
  case 0
  then have "j' = j" by simp
  with 0 show ?case by simp
next
  case (Suc d)
  then have lt: "j < j'" by linarith
  let ?k = "j' - 1"
  from lt Suc.prems have k: "0 \<le> ?k" "?k < F" "j \<le> ?k" "?k + 1 < F" by auto
  from inv k(1,2) obtain c where c: "rd (rx_map_fsc_rsc st) ?k = Inr c"
    and nx: "if ?k + 1 < F
              then rd (rx_map_fsc_rsc st) (?k + 1)
                   = Inr (c + (if relax_closes scp lastcol0 dc ?k then 1 else 0))
              else rx_sc_num st = c + (if relax_closes scp lastcol0 dc ?k then 1 else 0)"
    unfolding relax_inv_def by blast
  from nx k(4) Suc.prems(5) have bc: "b = c + (if relax_closes scp lastcol0 dc ?k then 1 else 0)"
    by simp
  have d: "d = nat (?k - j)" using Suc.hyps(2) by linarith
  from Suc.hyps(1)[OF d Suc.prems(1) k(3) k(2) Suc.prems(4) c]
  have ih: "a \<le> c" "j < ?k \<and> relax_closes scp lastcol0 dc j \<longrightarrow> a < c" by auto
  show ?case
  proof (cases "j = ?k")
    case True
    then have "a = c" using c Suc.prems(4) by simp
    then show ?thesis using bc True by auto
  next
    case False
    then have "j < ?k" using k(3) by simp
    then show ?thesis using ih bc by auto
  qed
qed

section \<open>detect\_supercol: the parents of the relaxed supercolumns\<close>

lemma relax_closes_parent:
  assumes "relax_closes scp lastcol0 dc j"
  shows "\<exists>p. rd scp j = Inr p \<and> p \<noteq> NONE"
  using assms by (auto simp: relax_closes_def split: sum.splits)

lemma relax_inv_chain:
  assumes "relax_inv scp lastcol0 dc F st" and "0 \<le> j" "j < F"
  shows "\<exists>a. rd (rx_map_fsc_rsc st) j = Inr a \<and>
             (if j + 1 < F
              then rd (rx_map_fsc_rsc st) (j + 1)
                   = Inr (a + (if relax_closes scp lastcol0 dc j then 1 else 0))
              else rx_sc_num st = a + (if relax_closes scp lastcol0 dc j then 1 else 0))"
proof -
  from assms(1) have "\<forall>j. 0 \<le> j \<and> j < F \<longrightarrow>
        (\<exists>a. rd (rx_map_fsc_rsc st) j = Inr a \<and>
             (if j + 1 < F
              then rd (rx_map_fsc_rsc st) (j + 1)
                   = Inr (a + (if relax_closes scp lastcol0 dc j then 1 else 0))
              else rx_sc_num st = a + (if relax_closes scp lastcol0 dc j then 1 else 0)))"
    unfolding relax_inv_def by (elim conjE)
  from this[rule_format, of j] assms(2,3) show ?thesis by simp
qed

lemma relax_last_inv_closed:
  assumes "relax_last_inv scp lastcol0 dc F st" and "0 \<le> k" "k < rx_sc_num st"
  shows "\<exists>j. rd (rx_lastcol st) k = Inr j \<and> 0 \<le> j \<and> j < F \<and>
             rd (rx_map_fsc_rsc st) j = Inr k \<and> relax_closes scp lastcol0 dc j"
proof -
  from assms(1) have "\<forall>k. 0 \<le> k \<and> k < rx_sc_num st \<longrightarrow>
        (\<exists>j. rd (rx_lastcol st) k = Inr j \<and> 0 \<le> j \<and> j < F \<and>
             rd (rx_map_fsc_rsc st) j = Inr k \<and> relax_closes scp lastcol0 dc j)"
    unfolding relax_last_inv_def by (elim conjE)
  from this[rule_format, of k] assms(2,3) show ?thesis by simp
qed

lemma relax_last_inv_open:
  assumes "relax_last_inv scp lastcol0 dc F st" and "0 < F"
    and "\<not> relax_closes scp lastcol0 dc (F - 1)"
  shows "rd (rx_lastcol st) (rx_sc_num st) = Inr (F - 1)"
proof -
  from assms(1) have "0 < F \<and> \<not> relax_closes scp lastcol0 dc (F - 1) \<longrightarrow>
          rd (rx_lastcol st) (rx_sc_num st) = Inr (F - 1)"
    unfolding relax_last_inv_def by (elim conjE)
  with assms(2,3) show ?thesis by simp
qed

lemma relax_last_inv_bound:
  assumes "relax_last_inv scp lastcol0 dc F st" and "0 \<le> j" "j < F"
    and "rd (rx_map_fsc_rsc st) j = Inr a"
  shows "0 \<le> a \<and> a \<le> j \<and> a \<le> rx_sc_num st"
proof -
  from assms(1) have "\<forall>j a. 0 \<le> j \<and> j < F \<and> rd (rx_map_fsc_rsc st) j = Inr a \<longrightarrow>
          0 \<le> a \<and> a \<le> j \<and> a \<le> rx_sc_num st"
    unfolding relax_last_inv_def by (elim conjE)
  from this[rule_format, of j a] assms(2-4) show ?thesis by simp
qed

lemma ds_relax_post:
  assumes run: "ds_relax scpB dc F mp0 lastcol0 scs = Inr rx"
    and F: "0 \<le> F"
    and PB: "\<forall>j. 0 \<le> j \<and> j < F \<longrightarrow>
               (\<exists>q. rd scpB j = Inr q \<and> (q = NONE \<or> (j < q \<and> q < F)))"
    and L: "\<forall>k v. rd lastcol0 k = Inr v \<longrightarrow> k < F"
    and i: "0 \<le> i" "i < rx_sc_num rx"
    and l: "rd (rx_lastcol rx) i = Inr l"
  shows "i \<le> l \<and> (\<exists>op. rd scpB l = Inr op \<and>
           (op = NONE \<or> (\<exists>r. rd (rx_map_fsc_rsc rx) op = Inr r \<and> i < r)))"
proof -
  from run obtain st where loop: "for_loop 0 F (ds_relax_step scpB dc)
            \<lparr> rx_sc_num = 0, rx_cscs = 0, rx_map_fsc_rsc = mp0, rx_lastcol = lastcol0,
              rx_sc_size = scs \<rparr> = Inr st"
    and m: "rx_map_fsc_rsc rx = rx_map_fsc_rsc st"
    and lc: "rx_lastcol rx = rx_lastcol st"
    and n: "rx_sc_num rx = rx_sc_num st + 1"
    by (auto simp: ds_relax_def bnd_Inr_iff)
  have fwd: "forward_parents F scpB" by (rule ds_fix_parent_forward[OF PB])
  from relax_loop_last_inv[OF loop fwd F]
  have inv: "relax_inv scpB lastcol0 dc F st" and linv: "relax_last_inv scpB lastcol0 dc F st"
    by simp_all
  have defd: "\<And>j. 0 \<le> j \<Longrightarrow> j < F \<Longrightarrow> \<exists>a. rd (rx_map_fsc_rsc st) j = Inr a"
    using relax_inv_chain[OF inv] by blast
  show ?thesis
  proof (cases "i < rx_sc_num st")
    case True
    from relax_last_inv_closed[OF linv i(1) True]
    obtain j where j: "rd (rx_lastcol st) i = Inr j" "0 \<le> j" "j < F"
      "rd (rx_map_fsc_rsc st) j = Inr i" "relax_closes scpB lastcol0 dc j"
      by blast
    have lj: "l = j" using l lc j(1) by simp
    from relax_last_inv_bound[OF linv j(2,3,4)] have ij: "i \<le> j" by simp
    from relax_closes_parent[OF j(5)] obtain p where p: "rd scpB j = Inr p" "p \<noteq> NONE"
      by blast
    from PB[rule_format, of j] j(2,3) p have pb: "j < p" "p < F" by auto
    from defd[of p] pb j(2) obtain r where r: "rd (rx_map_fsc_rsc st) p = Inr r" by auto
    from relax_map_mono[OF inv j(2) _ pb(2) j(4) r] pb(1) j(5) have "i < r" by simp
    then show ?thesis using lj ij p r m by auto
  next
    case False
    then have ii: "i = rx_sc_num st" using i n by simp
    show ?thesis
    proof (cases "F = 0")
      case True
      then have "st = \<lparr> rx_sc_num = 0, rx_cscs = 0, rx_map_fsc_rsc = mp0,
              rx_lastcol = lastcol0, rx_sc_size = scs \<rparr>"
        using loop by (simp add: for_loop_empty)
      then have "rd lastcol0 i = Inr l" using l lc by simp
      with L have "i < F" by blast
      with i True show ?thesis by simp
    next
      case False
      with F have Fp: "0 \<le> F - 1" "F - 1 < F" by auto
      from PB[rule_format, of "F - 1"] Fp
      obtain q where q: "rd scpB (F - 1) = Inr q" "q = NONE \<or> (F - 1 < q \<and> q < F)"
        by auto
      then have qn: "q = NONE" by auto
      have nc: "\<not> relax_closes scpB lastcol0 dc (F - 1)"
        using relax_closes_parent[of scpB lastcol0 dc "F - 1"] q(1) qn by auto
      from relax_last_inv_open[OF linv _ nc] False F
      have "rd (rx_lastcol st) (rx_sc_num st) = Inr (F - 1)" by simp
      then have lF: "l = F - 1" using l lc ii by simp
      from relax_inv_chain[OF inv Fp]
      obtain a where a: "rd (rx_map_fsc_rsc st) (F - 1) = Inr a"
        and e: "rx_sc_num st = a + (if relax_closes scpB lastcol0 dc (F - 1) then 1 else 0)"
        by auto
      from relax_last_inv_bound[OF linv Fp a] have "a \<le> F - 1" by simp
      then have "i \<le> l" using ii e nc lF by simp
      then show ?thesis using lF q(1) qn by auto
    qed
  qed
qed

lemma ds_relax_parent_step_effect:
  assumes step: "ds_relax_parent_step lc mp i scp = Inr scp'"
  shows "\<forall>j. j \<noteq> i \<longrightarrow> rd scp' j = rd scp j"
    and "\<exists>l op. rd lc i = Inr l \<and> rd scp l = Inr op \<and>
           (if op \<noteq> NONE then \<exists>r. rd mp op = Inr r \<and> rd scp' i = Inr r
            else rd scp' i = Inr NONE)"
proof -
  from step obtain l op where l: "rd lc i = Inr l" and op: "rd scp l = Inr op"
    and w: "(if op \<noteq> NONE then bnd (rd mp op) (\<lambda>r. wr scp i r) else wr scp i NONE)
            = Inr scp'"
    unfolding ds_relax_parent_step_def bnd_Inr_iff by blast
  then obtain v where v: "wr scp i v = Inr scp'"
    and vv: "if op \<noteq> NONE then rd mp op = Inr v else v = NONE"
    by (cases "op = NONE") (auto simp: bnd_Inr_iff)
  show "\<forall>j. j \<noteq> i \<longrightarrow> rd scp' j = rd scp j"
    using rd_wr_other[OF v] by blast
  show "\<exists>l op. rd lc i = Inr l \<and> rd scp l = Inr op \<and>
           (if op \<noteq> NONE then \<exists>r. rd mp op = Inr r \<and> rd scp' i = Inr r
            else rd scp' i = Inr NONE)"
    using l op vv rd_wr_same[OF v] by (cases "op = NONE") auto
qed

lemma ds_relax_parent_inv_done:
  assumes "ds_relax_parent_inv scpB i scp" and "0 \<le> k" "k < i" "rd scp k = Inr p"
  shows "p = NONE \<or> k < p"
proof -
  from assms(1) have "\<forall>k p. 0 \<le> k \<and> k < i \<and> rd scp k = Inr p \<longrightarrow> p = NONE \<or> k < p"
    unfolding ds_relax_parent_inv_def by (elim conjE)
  from this[rule_format, of k p] assms(2-4) show ?thesis by simp
qed

lemma ds_relax_parent_inv_rest:
  assumes "ds_relax_parent_inv scpB i scp" and "i \<le> k"
  shows "rd scp k = rd scpB k"
proof -
  from assms(1) have "\<forall>k. i \<le> k \<longrightarrow> rd scp k = rd scpB k"
    unfolding ds_relax_parent_inv_def by (elim conjE)
  from this[rule_format, of k] assms(2) show ?thesis by simp
qed

lemma ds_relax_parent_inv_step:
  assumes step: "ds_relax_parent_step lc mp i scp = Inr scp'"
    and inv: "ds_relax_parent_inv scpB i scp"
    and post: "\<And>l. rd lc i = Inr l \<Longrightarrow> i \<le> l \<and> (\<exists>op. rd scpB l = Inr op \<and>
           (op = NONE \<or> (\<exists>r. rd mp op = Inr r \<and> i < r)))"
  shows "ds_relax_parent_inv scpB (i + 1) scp'"
proof -
  note eff = ds_relax_parent_step_effect[OF step]
  from eff(2) obtain l op where l: "rd lc i = Inr l" and op: "rd scp l = Inr op"
    and r: "if op \<noteq> NONE then \<exists>r. rd mp op = Inr r \<and> rd scp' i = Inr r
            else rd scp' i = Inr NONE" by blast
  from post[OF l] obtain op' where il: "i \<le> l" and op': "rd scpB l = Inr op'"
    "op' = NONE \<or> (\<exists>r. rd mp op' = Inr r \<and> i < r)" by blast
  have "rd scp l = rd scpB l" by (rule ds_relax_parent_inv_rest[OF inv il])
  then have oo: "op' = op" using op op' by simp
  have new: "p = NONE \<or> i < p" if "rd scp' i = Inr p" for p
  proof (cases "op = NONE")
    case True
    then show ?thesis using r that by simp
  next
    case False
    with r obtain r0 where r0: "rd mp op = Inr r0" "rd scp' i = Inr r0" by auto
    from op'(2) oo False obtain r1 where "rd mp op = Inr r1" "i < r1" by auto
    with r0 that show ?thesis by simp
  qed
  have A: "p = NONE \<or> k < p" if "0 \<le> k" "k < i + 1" "rd scp' k = Inr p" for k p
  proof (cases "k = i")
    case True
    then show ?thesis using new that by blast
  next
    case False
    then have "k < i" "rd scp k = Inr p" using that eff(1) by auto
    then show ?thesis using ds_relax_parent_inv_done[OF inv that(1)] by blast
  qed
  have B: "rd scp' k = rd scpB k" if "i + 1 \<le> k" for k
  proof -
    from that have "k \<noteq> i" "i \<le> k" by auto
    then show ?thesis using eff(1) ds_relax_parent_inv_rest[OF inv] by simp
  qed
  show ?thesis unfolding ds_relax_parent_inv_def
  proof (intro conjI allI impI)
    fix k p assume "0 \<le> k \<and> k < i + 1 \<and> rd scp' k = Inr p"
    then show "p = NONE \<or> k < p" using A by blast
  next
    fix k assume "i + 1 \<le> k" then show "rd scp' k = rd scpB k" by (rule B)
  qed
qed

lemma detect_supercol_parent_forward:
  assumes run: "detect_supercol mem A column_order one_child desc_count lsz usz postorder
                  sc_size sc_parent = Inr (sc_num, sc_size', sc_parent')"
    and s: "0 \<le> s" "s < sc_num"
    and p: "rd sc_parent' s = Inr p" "p \<noteq> NONE"
  shows "s < p"
proof -
  from run obtain st0 st1 scp1 rx where
    init: "ds_init A sc_size sc_parent = Inr st0"
    and cols: "for_loop 0 (ccs_n A) (ds_col_step A column_order one_child lsz usz postorder) st0
               = Inr st1"
    and fixl: "for_loop 0 (ds_fsc_num st1 + 1) (ds_fix_parent_step (ds_map_col_supercol st1))
               (ds_sc_parent st1) = Inr scp1"
    and rel: "ds_relax scp1 desc_count (ds_fsc_num st1 + 1) (ds_map_col_supercol st1)
               (ds_lastcol st1) (ds_sc_size st1) = Inr rx"
    and fin: "for_loop 0 (rx_sc_num rx)
               (ds_relax_parent_step (rx_lastcol rx) (rx_map_fsc_rsc rx)) scp1 = Inr sc_parent'"
    and num: "sc_num = rx_sc_num rx"
    by (auto simp: detect_supercol_def Let_def bnd_Inr_iff split: if_splits)
  note A = ds_columns_post[OF init cols]
  note PB = ds_fix_parent_post[OF fixl A(1) A(2) A(4)]
  have post: "\<And>i l. 0 \<le> i \<Longrightarrow> i < rx_sc_num rx \<Longrightarrow> rd (rx_lastcol rx) i = Inr l \<Longrightarrow>
        i \<le> l \<and> (\<exists>op. rd scp1 l = Inr op \<and>
           (op = NONE \<or> (\<exists>r. rd (rx_map_fsc_rsc rx) op = Inr r \<and> i < r)))"
    using ds_relax_post[OF rel A(1) PB A(3)] by blast
  have n0: "0 \<le> rx_sc_num rx" using s num by simp
  have "ds_relax_parent_inv scp1 (rx_sc_num rx) sc_parent'"
  proof (rule for_loop_rule[OF fin n0, where I = "ds_relax_parent_inv scp1"])
    show "ds_relax_parent_inv scp1 0 scp1" by (auto simp: ds_relax_parent_inv_def)
  next
    fix i t t'
    assume i: "0 \<le> i" "i < rx_sc_num rx" and I: "ds_relax_parent_inv scp1 i t"
      and step: "ds_relax_parent_step (rx_lastcol rx) (rx_map_fsc_rsc rx) i t = Inr t'"
    show "ds_relax_parent_inv scp1 (i + 1) t'"
      by (rule ds_relax_parent_inv_step[OF step I]) (use post[OF i] in blast)
  qed
  from ds_relax_parent_inv_done[OF this s(1) _ p(1)] s(2) num p(2) show ?thesis by simp
qed

section \<open>The parents in the symbolic result\<close>

lemma complete_symbolic_frame:
  assumes "complete_symbolic symbolic = Inr symbolic'"
  shows "parent (etree symbolic') = parent (etree symbolic)"
    and "number_supercolumns symbolic' = number_supercolumns symbolic"
  using assms
  by (auto simp: complete_symbolic_def Let_def bnd_Inr_iff split: prod.splits)

lemma symbolic_from_detect:
  assumes "taucs_ccs_factor_lu_symbolic mem A column_order = Some (Inr symbolic)"
  shows "\<exists>cols one_child desc_count lsz usz postorder sc_size par sc_size'.
           detect_supercol (mem_detect mem) A cols one_child desc_count lsz usz postorder
             sc_size par
           = Inr (number_supercolumns symbolic, sc_size', parent (etree symbolic))"
proof -
  from assms obtain cols one_child desc_count lsz usz postorder par sc_num sc_size' scp
      fc nc sl su where
    det: "detect_supercol (mem_detect mem) A cols one_child desc_count lsz usz postorder
            (supercolumn_size (allocate_symbolic (ccs_n A))) par = Inr (sc_num, sc_size', scp)"
    and cs: "complete_symbolic
               ((allocate_symbolic (ccs_n A))
                  \<lparr> columns := cols, number_supercolumns := sc_num,
                    supercolumn_size := sc_size', l_size := sl, u_size := su,
                    etree := (etree (allocate_symbolic (ccs_n A)))
                      \<lparr> parent := scp, first_child := fc, next_child := nc \<rparr> \<rparr>)
             = Inr symbolic"
    unfolding taucs_ccs_factor_lu_symbolic_def Let_def
    by (auto simp: bnd_Inr_iff split: if_splits sum.splits option.splits prod.splits)
  from complete_symbolic_frame[OF cs] det
  have "detect_supercol (mem_detect mem) A cols one_child desc_count lsz usz postorder
            (supercolumn_size (allocate_symbolic (ccs_n A))) par
        = Inr (number_supercolumns symbolic, sc_size', parent (etree symbolic))"
    by simp
  then show ?thesis by blast
qed

text \<open>The symbolic factorization of the 21 by 21 arrow matrix: 21 supercolumns of one column,
  the first twenty with the last one as their parent.\<close>

lemma arrow21_symbolic:
  "taucs_ccs_factor_lu_symbolic all_allocated arrow21 (from_list [0..20])
   = Some (Inr arrow21_symbolic_result)"
  by code_simp

text \<open>
  Claim C7.  In every result of the symbolic factorization, a supercolumn that is not a root
  has a parent with a larger index.
\<close>

theorem symbolic_parent_increasing:
  assumes "taucs_ccs_factor_lu_symbolic mem A column_order = Some (Inr symbolic)"
    and "0 \<le> s" "s < number_supercolumns symbolic"
    and "rd (parent (etree symbolic)) s = Inr p" "p \<noteq> NONE"
  shows "s < p"
proof -
  from symbolic_from_detect[OF assms(1)]
  obtain cols one_child desc_count lsz usz postorder sc_size par sc_size' where
    "detect_supercol (mem_detect mem) A cols one_child desc_count lsz usz postorder
             sc_size par
           = Inr (number_supercolumns symbolic, sc_size', parent (etree symbolic))"
    by blast
  from detect_supercol_parent_forward[OF this assms(2-5)] show ?thesis .
qed

text \<open>The theorem at supercolumn 3 of the arrow matrix, whose parent is supercolumn 20.\<close>

theorem symbolic_parent_increasing_witness:
  "taucs_ccs_factor_lu_symbolic all_allocated arrow21 (from_list [0..20])
     = Some (Inr arrow21_symbolic_result) \<and>
   3 < number_supercolumns arrow21_symbolic_result \<and>
   rd (parent (etree arrow21_symbolic_result)) 3 = Inr 20 \<and> 20 \<noteq> NONE \<and> (3::int) < 20"
proof -
  have b: "(0::int) \<le> 3" "3 < number_supercolumns arrow21_symbolic_result"
    by code_simp+
  have r: "rd (parent (etree arrow21_symbolic_result)) 3 = Inr 20"
    by code_simp
  have n: "20 \<noteq> NONE" by (simp add: NONE_def)
  from symbolic_parent_increasing[OF arrow21_symbolic b r n] arrow21_symbolic b r n
  show ?thesis by simp
qed

section \<open>Postordered forests\<close>

lemma has_child_below_iff:
  "has_child_below par k s \<longleftrightarrow> (\<exists>c. 0 \<le> c \<and> c < k \<and> rd par c = Inr s)"
  by (auto simp: has_child_below_def list_ex_iff)

lemma postorderedD:
  assumes "postordered S par" and "0 \<le> i" "i < S"
  shows "\<exists>p. rd par i = Inr p \<and>
           (p = NONE \<or> (i < p \<and> p < S \<and>
              (\<forall>j. i < j \<and> j < p \<longrightarrow> (\<exists>q. rd par j = Inr q \<and> q \<noteq> NONE \<and> q \<le> p))))"
proof -
  from assms(2,3) have "i \<in> set [0..S - 1]" by simp
  with assms(1) have c: "case rd par i of
                     Inl e \<Rightarrow> False
                   | Inr p \<Rightarrow> p = NONE \<or>
                       (i < p \<and> p < S \<and>
                        list_all (\<lambda>j. case rd par j of
                                        Inl e \<Rightarrow> False
                                      | Inr q \<Rightarrow> q \<noteq> NONE \<and> q \<le> p) [i + 1..p - 1])"
    unfolding postordered_def list_all_iff by blast
  then obtain p where p: "rd par i = Inr p" by (cases "rd par i") auto
  show ?thesis
  proof (cases "p = NONE")
    case True
    then show ?thesis using p by simp
  next
    case False
    with c p have b: "i < p" "p < S"
      and l: "list_all (\<lambda>j. case rd par j of
                                        Inl e \<Rightarrow> False
                                      | Inr q \<Rightarrow> q \<noteq> NONE \<and> q \<le> p) [i + 1..p - 1]"
      by auto
    have "\<exists>q. rd par j = Inr q \<and> q \<noteq> NONE \<and> q \<le> p" if "i < j" "j < p" for j
    proof -
      from that have "j \<in> set [i + 1..p - 1]" by simp
      with l have "case rd par j of Inl e \<Rightarrow> False | Inr q \<Rightarrow> q \<noteq> NONE \<and> q \<le> p"
        unfolding list_all_iff by blast
      then show ?thesis by (cases "rd par j") auto
    qed
    then show ?thesis using p b by blast
  qed
qed

lemma sc_descendant_less:
  assumes po: "postordered S par" and d: "sc_descendant S par c i"
  shows "0 \<le> c \<and> c < i \<and> i < S"
  using d
proof (induction rule: sc_descendant.induct)
  case (child c i)
  with postorderedD[OF po child(1,2)] show ?case by auto
next
  case (above c j i)
  with postorderedD[OF po above(1,2)] show ?case by auto
qed

lemma sc_descendant_trans:
  assumes "sc_descendant S par a b" and "sc_descendant S par b c"
  shows "sc_descendant S par a c"
  using assms
  by (induction rule: sc_descendant.induct) (auto intro: sc_descendant.intros)

lemma sc_descendant_cases:
  assumes "sc_descendant S par c i"
  shows "\<exists>p. rd par c = Inr p \<and> p \<noteq> NONE \<and> 0 \<le> c \<and> c < S \<and> (p = i \<or> sc_descendant S par p i)"
  using assms by (cases rule: sc_descendant.cases) auto

text \<open>A supercolumn between a child and its parent is a descendant of that parent.\<close>

lemma sc_between_descendant:
  assumes po: "postordered S par"
    and i: "0 \<le> i" "i < S" "rd par i = Inr q" "q \<noteq> NONE"
    and c: "i < c" "c < q"
  shows "sc_descendant S par c q"
  using c
proof (induction "nat (q - c)" arbitrary: c rule: less_induct)
  case less
  from postorderedD[OF po i(1,2)] i(3,4) have qS: "q < S"
    and btw: "\<And>j. i < j \<Longrightarrow> j < q \<Longrightarrow> \<exists>r. rd par j = Inr r \<and> r \<noteq> NONE \<and> r \<le> q"
    by auto
  from btw[OF less.prems] obtain r where r: "rd par c = Inr r" "r \<noteq> NONE" "r \<le> q" by blast
  have c0: "0 \<le> c" "c < S" using less.prems i(1) qS by auto
  from postorderedD[OF po c0] r have cr: "c < r" by auto
  show ?case
  proof (cases "r = q")
    case True
    then show ?thesis using sc_descendant.child[OF c0 r(1,2)] by simp
  next
    case False
    then have rq: "r < q" using r(3) by simp
    have "nat (q - r) < nat (q - c)" using cr rq by simp
    from less.hyps[OF this _ rq] cr less.prems(1) have "sc_descendant S par r q" by simp
    then show ?thesis using sc_descendant.above[OF c0 r(1,2)] by simp
  qed
qed

text \<open>The descendants of a supercolumn are contiguous: everything from a descendant up to the
  supercolumn is a descendant.\<close>

lemma sc_descendant_contiguous:
  assumes po: "postordered S par" and d: "sc_descendant S par d j"
    and c: "d \<le> c" "c < j"
  shows "sc_descendant S par c j"
  using d c
proof (induction arbitrary: c rule: sc_descendant.induct)
  case (child d j)
  show ?case
  proof (cases "c = d")
    case True
    then show ?thesis using sc_descendant.child[OF child(1-4)] by simp
  next
    case False
    then have "d < c" using child by simp
    from sc_between_descendant[OF po child(1-4) this child(6)] show ?thesis .
  qed
next
  case (above d x j)
  have dj: "sc_descendant S par d j" by (rule sc_descendant.above[OF above(1-5)])
  show ?case
  proof (cases "c = d")
    case True
    then show ?thesis using dj by simp
  next
    case False
    then have dc: "d < c" using above by simp
    show ?thesis
    proof (cases "c < x")
      case True
      from sc_between_descendant[OF po above(1-4) dc True]
      show ?thesis using sc_descendant_trans above(5) by blast
    next
      case False
      then have "x \<le> c" by simp
      from above.IH[OF this above.prems(2)] show ?thesis .
    qed
  qed
qed

section \<open>complete\_symbolic: the descendant ranges\<close>

lemma sc_descendant_via_child:
  assumes "sc_descendant S par c p"
  shows "\<exists>x. 0 \<le> x \<and> x < S \<and> rd par x = Inr p \<and> (x = c \<or> sc_descendant S par c x)"
  using assms
proof (induction rule: sc_descendant.induct)
  case (child c i)
  then show ?case by blast
next
  case (above c j i)
  then obtain x where x: "0 \<le> x" "x < S" "rd par x = Inr i" "x = j \<or> sc_descendant S par j x"
    by blast
  have "sc_descendant S par c x"
  proof (cases "x = j")
    case True
    then show ?thesis using sc_descendant.child[OF above(1-4)] by simp
  next
    case False
    with x(4) have "sc_descendant S par j x" by simp
    then show ?thesis using sc_descendant.above[OF above(1-4)] by simp
  qed
  with x show ?case by blast
qed

lemma has_child_below_Suc:
  "has_child_below par (k + 1) j \<longleftrightarrow> has_child_below par k j \<or> (0 \<le> k \<and> rd par k = Inr j)"
  unfolding has_child_below_iff
proof
  assume "\<exists>c. 0 \<le> c \<and> c < k + 1 \<and> rd par c = Inr j"
  then obtain c where c: "0 \<le> c" "c < k + 1" "rd par c = Inr j" by blast
  show "(\<exists>c. 0 \<le> c \<and> c < k \<and> rd par c = Inr j) \<or> (0 \<le> k \<and> rd par k = Inr j)"
  proof (cases "c = k")
    case True
    then show ?thesis using c by simp
  next
    case False
    then have "c < k" using c by simp
    then show ?thesis using c by blast
  qed
next
  assume "(\<exists>c. 0 \<le> c \<and> c < k \<and> rd par c = Inr j) \<or> (0 \<le> k \<and> rd par k = Inr j)"
  then show "\<exists>c. 0 \<le> c \<and> c < k + 1 \<and> rd par c = Inr j"
  proof
    assume "\<exists>c. 0 \<le> c \<and> c < k \<and> rd par c = Inr j"
    then obtain c where "0 \<le> c" "c < k" "rd par c = Inr j" by blast
    then have "0 \<le> c \<and> c < k + 1 \<and> rd par c = Inr j" by simp
    then show ?thesis by blast
  next
    assume "0 \<le> k \<and> rd par k = Inr j"
    then have "0 \<le> k \<and> k < k + 1 \<and> rd par k = Inr j" by simp
    then show ?thesis by blast
  qed
qed

text \<open>The children of a supercolumn come before it.\<close>

lemma has_child_below_self:
  assumes po: "postordered S par" and k: "0 \<le> k" "k < S"
  shows "has_child_below par S k \<longleftrightarrow> has_child_below par k k"
  unfolding has_child_below_iff
proof
  assume "\<exists>c. 0 \<le> c \<and> c < S \<and> rd par c = Inr k"
  then obtain c where c: "0 \<le> c" "c < S" "rd par c = Inr k" by blast
  have "k \<noteq> NONE" using k by (simp add: NONE_def)
  with postorderedD[OF po c(1,2)] c(3) have "c < k" by auto
  with c show "\<exists>c. 0 \<le> c \<and> c < k \<and> rd par c = Inr k" by blast
next
  assume "\<exists>c. 0 \<le> c \<and> c < k \<and> rd par c = Inr k"
  then obtain c where "0 \<le> c" "c < k" "rd par c = Inr k" by blast
  then have "0 \<le> c \<and> c < S \<and> rd par c = Inr k" using k by simp
  then show "\<exists>c. 0 \<le> c \<and> c < S \<and> rd par c = Inr k" by blast
qed

lemma cs_desc_step_effect:
  assumes step: "cs_desc_step par k (fd, ld) = Inr (fd', ld')" and k0: "0 \<le> k"
    and p: "rd par k = Inr p" and pk: "p \<noteq> k"
  shows "\<exists>fdk. rd fd k = Inr fdk \<and>
          (if fdk \<noteq> NONE then wr ld k (k - 1) = Inr ld' else ld' = ld) \<and>
          (if p = NONE then fd' = fd
           else \<exists>fdp. rd fd p = Inr fdp \<and>
                  (if fdp = NONE then wr fd p (if fdk = NONE then k else fdk) = Inr fd'
                   else fd' = fd))"
proof -
  from step p obtain fdk where fdk: "rd fd k = Inr fdk"
    and l: "(if fdk \<noteq> NONE then wr ld k (k - 1) else Inr ld) = Inr ld'"
    and rest: "p \<noteq> NONE \<Longrightarrow> \<exists>fdp fd1 fdp1 fdi1. rd fd p = Inr fdp \<and>
         (if fdp = NONE \<and> fdk = NONE then wr fd p k else Inr fd) = Inr fd1 \<and>
         rd fd1 p = Inr fdp1 \<and> rd fd1 k = Inr fdi1 \<and>
         (if fdp1 = NONE \<and> fdi1 \<noteq> NONE then wr fd1 p fdi1 else Inr fd1) = Inr fd'"
    and none: "p = NONE \<Longrightarrow> fd' = fd"
    by (auto simp: cs_desc_step_def bnd_Inr_iff split: if_splits)
  have kn: "k \<noteq> NONE" using k0 by (simp add: NONE_def)
  have L: "if fdk \<noteq> NONE then wr ld k (k - 1) = Inr ld' else ld' = ld"
    using l by (auto split: if_splits)
  have F: "if p = NONE then fd' = fd
           else \<exists>fdp. rd fd p = Inr fdp \<and>
                  (if fdp = NONE then wr fd p (if fdk = NONE then k else fdk) = Inr fd'
                   else fd' = fd)"
  proof (cases "p = NONE")
    case True
    then show ?thesis using none by simp
  next
    case False
    from rest[OF False] obtain fdp fd1 fdp1 fdi1 where fdp: "rd fd p = Inr fdp"
      and w1: "(if fdp = NONE \<and> fdk = NONE then wr fd p k else Inr fd) = Inr fd1"
      and r1: "rd fd1 p = Inr fdp1" and r2: "rd fd1 k = Inr fdi1"
      and w2: "(if fdp1 = NONE \<and> fdi1 \<noteq> NONE then wr fd1 p fdi1 else Inr fd1) = Inr fd'"
      by blast
    show ?thesis
    proof (cases "fdp = NONE")
      case fn: True
      show ?thesis
      proof (cases "fdk = NONE")
        case True
        with fn w1 have w: "wr fd p k = Inr fd1" by simp
        then have "fdp1 = k" using r1 rd_wr_same[OF w] by simp
        then have "fd' = fd1" using w2 kn by simp
        then show ?thesis using False fdp fn True w by simp
      next
        case f2: False
        with w1 have e: "fd1 = fd" by simp
        then have "fdp1 = NONE" "fdi1 = fdk" using r1 r2 fdp fdk fn by simp_all
        then have "wr fd p fdk = Inr fd'" using w2 f2 e by simp
        then show ?thesis using False fdp fn f2 by simp
      qed
    next
      case f3: False
      with w1 have e: "fd1 = fd" by simp
      then have "fdp1 = fdp" using r1 fdp by simp
      then have "fd' = fd" using w2 f3 e by simp
      then show ?thesis using False fdp f3 by simp
    qed
  qed
  show ?thesis using fdk L F by blast
qed

lemma cs_desc_inv_fd:
  assumes "cs_desc_inv S par k (fd, ld)" and "0 \<le> j" "j < S"
  shows "\<exists>v. rd fd j = Inr v \<and>
           (if has_child_below par k j
            then 0 \<le> v \<and> v < j \<and> (\<forall>c. sc_descendant S par c j \<longleftrightarrow> v \<le> c \<and> c < j)
            else v = NONE)"
proof -
  from assms(1) have "\<forall>j. 0 \<le> j \<and> j < S \<longrightarrow>
        (\<exists>v. rd fd j = Inr v \<and>
           (if has_child_below par k j
            then 0 \<le> v \<and> v < j \<and> (\<forall>c. sc_descendant S par c j \<longleftrightarrow> v \<le> c \<and> c < j)
            else v = NONE))"
    unfolding cs_desc_inv_def fst_conv by (elim conjE)
  from this[rule_format, of j] assms(2,3) show ?thesis by simp
qed

lemma cs_desc_inv_ld:
  assumes "cs_desc_inv S par k (fd, ld)" and "0 \<le> j" "j < S"
  shows "rd ld j = Inr (if j < k \<and> has_child_below par S j then j - 1 else NONE)"
proof -
  from assms(1) have "\<forall>j. 0 \<le> j \<and> j < S \<longrightarrow>
        rd ld j = Inr (if j < k \<and> has_child_below par S j then j - 1 else NONE)"
    unfolding cs_desc_inv_def snd_conv by (elim conjE)
  from this[rule_format, of j] assms(2,3) show ?thesis by simp
qed

text \<open>The first child of a supercolumn fixes the start of its range.\<close>

lemma first_child_range:
  assumes po: "postordered S par"
    and k: "0 \<le> k" "k < S" and p: "rd par k = Inr p" "p \<noteq> NONE"
    and first: "\<not> has_child_below par k p"
    and fdk: "if has_child_below par k k
            then 0 \<le> fdk \<and> fdk < k \<and> (\<forall>c. sc_descendant S par c k \<longleftrightarrow> fdk \<le> c \<and> c < k)
            else fdk = NONE"
  shows "sc_descendant S par c p \<longleftrightarrow> (if fdk = NONE then k else fdk) \<le> c \<and> c < p"
proof -
  let ?v = "if fdk = NONE then k else fdk"
  have kp: "sc_descendant S par k p" by (rule sc_descendant.child[OF k p])
  have nn: "has_child_below par k k \<Longrightarrow> fdk \<noteq> NONE"
    using fdk by (auto simp: NONE_def)
  have vk: "?v \<le> k" using fdk by (auto split: if_splits)
  have vd: "sc_descendant S par ?v p"
  proof (cases "fdk = NONE")
    case True
    then show ?thesis using kp by simp
  next
    case False
    with fdk have h: "0 \<le> fdk" "fdk < k" "\<forall>c. sc_descendant S par c k \<longleftrightarrow> fdk \<le> c \<and> c < k"
      by (auto split: if_splits)
    then have "sc_descendant S par fdk k" by simp
    then show ?thesis using sc_descendant_trans kp False by auto
  qed
  show ?thesis
  proof
    assume "?v \<le> c \<and> c < p"
    then show "sc_descendant S par c p"
      using sc_descendant_contiguous[OF po vd] by blast
  next
    assume d: "sc_descendant S par c p"
    from sc_descendant_less[OF po d] have cp: "c < p" "0 \<le> c" by auto
    from sc_descendant_via_child[OF d] obtain x where
      x: "0 \<le> x" "x < S" "rd par x = Inr p" "x = c \<or> sc_descendant S par c x" by blast
    have xk: "k \<le> x"
    proof (rule ccontr)
      assume "\<not> k \<le> x"
      then have "0 \<le> x \<and> x < k \<and> rd par x = Inr p" using x by simp
      then have "has_child_below par k p" unfolding has_child_below_iff by blast
      with first show False by simp
    qed
    from postorderedD[OF po x(1,2)] x(3) p(2) have xp: "x < p" by auto
    have "?v \<le> c"
    proof (rule ccontr)
      assume "\<not> ?v \<le> c"
      then have cv: "c < ?v" by simp
      then have ck: "c < k" using vk by simp
      show False
      proof (cases "x = k")
        case True
        with x(4) ck have dk: "sc_descendant S par c k" by auto
        from sc_descendant_via_child[OF dk] obtain y where
          y: "0 \<le> y" "y < S" "rd par y = Inr k" by blast
        have "k \<noteq> NONE" using k by (simp add: NONE_def)
        with postorderedD[OF po y(1,2)] y(3) have "y < k" by auto
        with y have "has_child_below par k k" unfolding has_child_below_iff by blast
        with fdk have "\<forall>c. sc_descendant S par c k \<longleftrightarrow> fdk \<le> c \<and> c < k" "fdk \<noteq> NONE"
          using nn by auto
        with dk have "?v \<le> c" by auto
        with cv show False by simp
      next
        case False
        with xk have kx: "k < x" by simp
        with ck x(4) have dx: "sc_descendant S par c x" by auto
        from sc_descendant_contiguous[OF po dx] ck kx have "sc_descendant S par k x" by simp
        from sc_descendant_cases[OF this] p(1) have "p = x \<or> sc_descendant S par p x" by auto
        then have "p \<le> x" using sc_descendant_less[OF po, of p x] by auto
        with xp show False by simp
      qed
    qed
    with cp show "?v \<le> c \<and> c < p" by simp
  qed
qed

lemma cs_desc_inv_step:
  assumes po: "postordered S par"
    and step: "cs_desc_step par k t = Inr t'"
    and inv: "cs_desc_inv S par k t"
    and k: "0 \<le> k" "k < S"
  shows "cs_desc_inv S par (k + 1) t'"
proof -
  obtain fd ld where t: "t = (fd, ld)" by (cases t)
  obtain fd' ld' where t': "t' = (fd', ld')" by (cases t')
  from postorderedD[OF po k] obtain p where p: "rd par k = Inr p"
    and pp: "p = NONE \<or> (k < p \<and> p < S)" by blast
  have kn: "k \<noteq> NONE" using k by (simp add: NONE_def)
  have pk: "p \<noteq> k" using pp kn by auto
  from cs_desc_step_effect[OF step[unfolded t t'] k(1) p pk]
  obtain fdk where fdk: "rd fd k = Inr fdk"
    and L: "if fdk \<noteq> NONE then wr ld k (k - 1) = Inr ld' else ld' = ld"
    and F: "if p = NONE then fd' = fd
           else \<exists>fdp. rd fd p = Inr fdp \<and>
                  (if fdp = NONE then wr fd p (if fdk = NONE then k else fdk) = Inr fd'
                   else fd' = fd)"
    by blast
  note invt = inv[unfolded t]
  from cs_desc_inv_fd[OF invt k] fdk
  have fk: "if has_child_below par k k
            then 0 \<le> fdk \<and> fdk < k \<and> (\<forall>c. sc_descendant S par c k \<longleftrightarrow> fdk \<le> c \<and> c < k)
            else fdk = NONE" by auto
  have fkn: "fdk \<noteq> NONE \<longleftrightarrow> has_child_below par k k"
    using fk by (auto simp: NONE_def split: if_splits)
  have other: "rd fd' j = rd fd j" if "j \<noteq> p" for j
  proof (cases "p = NONE")
    case True
    then show ?thesis using F by simp
  next
    case False
    with F obtain fdp where "rd fd p = Inr fdp"
      "if fdp = NONE then wr fd p (if fdk = NONE then k else fdk) = Inr fd' else fd' = fd"
      by auto
    then show ?thesis using that by (cases "fdp = NONE") (auto simp: rd_wr_other)
  qed
  have A: "\<exists>v. rd fd' j = Inr v \<and>
           (if has_child_below par (k + 1) j
            then 0 \<le> v \<and> v < j \<and> (\<forall>c. sc_descendant S par c j \<longleftrightarrow> v \<le> c \<and> c < j)
            else v = NONE)" if j: "0 \<le> j" "j < S" for j
  proof (cases "j = p")
    case False
    then have "has_child_below par (k + 1) j = has_child_below par k j"
      using has_child_below_Suc[of par k j] p by auto
    then show ?thesis using cs_desc_inv_fd[OF invt j] other[OF False] by simp
  next
    case True
    then have pn: "p \<noteq> NONE" using j by (simp add: NONE_def)
    with F obtain fdp where fdp: "rd fd p = Inr fdp"
      and W: "if fdp = NONE then wr fd p (if fdk = NONE then k else fdk) = Inr fd' else fd' = fd"
      by auto
    have hc: "has_child_below par (k + 1) j"
      using has_child_below_Suc[of par k j] p True k by simp
    from cs_desc_inv_fd[OF invt j] fdp True
    have fp: "if has_child_below par k p
            then 0 \<le> fdp \<and> fdp < p \<and> (\<forall>c. sc_descendant S par c p \<longleftrightarrow> fdp \<le> c \<and> c < p)
            else fdp = NONE" by auto
    show ?thesis
    proof (cases "has_child_below par k p")
      case h: True
      with fp have "fdp \<noteq> NONE" by (auto simp: NONE_def)
      with W have "fd' = fd" by simp
      then show ?thesis using fdp fp h hc True by auto
    next
      case h: False
      with fp have "fdp = NONE" by simp
      with W have w: "wr fd p (if fdk = NONE then k else fdk) = Inr fd'" by simp
      let ?v = "if fdk = NONE then k else fdk"
      have r: "rd fd' p = Inr ?v" by (rule rd_wr_same[OF w])
      have D: "\<And>c. sc_descendant S par c p \<longleftrightarrow> ?v \<le> c \<and> c < p"
        by (rule first_child_range[OF po k p pn h fk])
      have "0 \<le> ?v" using fk k by (auto split: if_splits)
      moreover have "?v < p" using fk pp pn by (auto split: if_splits)
      ultimately show ?thesis using r D hc True by auto
    qed
  qed
  have B: "rd ld' j = Inr (if j < k + 1 \<and> has_child_below par S j then j - 1 else NONE)"
    if j: "0 \<le> j" "j < S" for j
  proof (cases "j = k")
    case True
    have hs: "has_child_below par S k \<longleftrightarrow> fdk \<noteq> NONE"
      using has_child_below_self[OF po k] fkn by simp
    show ?thesis
    proof (cases "fdk = NONE")
      case n: True
      with L have "ld' = ld" by simp
      then show ?thesis using cs_desc_inv_ld[OF invt j] True hs n by simp
    next
      case n: False
      with L have "wr ld k (k - 1) = Inr ld'" by simp
      from rd_wr_same[OF this] show ?thesis using True hs n by simp
    qed
  next
    case False
    have "rd ld' j = rd ld j"
    proof (cases "fdk = NONE")
      case True
      with L show ?thesis by simp
    next
      case n: False
      with L have "wr ld k (k - 1) = Inr ld'" by simp
      from rd_wr_other[OF this False] show ?thesis .
    qed
    then show ?thesis using cs_desc_inv_ld[OF invt j] False by auto
  qed
  show ?thesis unfolding t' cs_desc_inv_def fst_conv snd_conv
  proof (intro conjI allI impI)
    fix j assume "0 \<le> j \<and> j < S"
    then show "\<exists>v. rd fd' j = Inr v \<and>
           (if has_child_below par (k + 1) j
            then 0 \<le> v \<and> v < j \<and> (\<forall>c. sc_descendant S par c j \<longleftrightarrow> v \<le> c \<and> c < j)
            else v = NONE)" using A by blast
  next
    fix j assume "0 \<le> j \<and> j < S"
    then show "rd ld' j = Inr (if j < k + 1 \<and> has_child_below par S j then j - 1 else NONE)"
      using B by blast
  qed
qed

lemma cs_init_post:
  assumes loop: "for_loop 0 s cs_init_step (fc, nc, fd, ld) = Inr (fc0, nc0, fd0, ld0)"
    and j: "0 \<le> j" "j < s"
  shows "rd fd0 j = Inr NONE \<and> rd ld0 j = Inr NONE"
proof -
  have s0: "0 \<le> s" using j by simp
  have "\<forall>j. 0 \<le> j \<and> j < s \<longrightarrow>
          rd (fst (snd (snd (fc0, nc0, fd0, ld0)))) j = Inr NONE \<and>
          rd (snd (snd (snd (fc0, nc0, fd0, ld0)))) j = Inr NONE"
  proof (rule for_loop_rule[OF loop s0,
           where I = "\<lambda>i t. \<forall>j. 0 \<le> j \<and> j < i \<longrightarrow>
                    rd (fst (snd (snd t))) j = Inr NONE \<and> rd (snd (snd (snd t))) j = Inr NONE"])
    show "\<forall>j. 0 \<le> j \<and> j < 0 \<longrightarrow>
            rd (fst (snd (snd (fc, nc, fd, ld)))) j = Inr NONE \<and>
            rd (snd (snd (snd (fc, nc, fd, ld)))) j = Inr NONE" by auto
  next
    fix i t t'
    assume i: "0 \<le> i" "i < s"
      and I: "\<forall>j. 0 \<le> j \<and> j < i \<longrightarrow>
                rd (fst (snd (snd t))) j = Inr NONE \<and> rd (snd (snd (snd t))) j = Inr NONE"
      and step: "cs_init_step i t = Inr t'"
    obtain a b c d where t: "t = (a, b, c, d)" by (cases t)
    obtain a' b' c' d' where t': "t' = (a', b', c', d')" by (cases t')
    from step have w: "wr c i NONE = Inr c'" "wr d i NONE = Inr d'"
      unfolding t t' by (auto simp: cs_init_step_def bnd_Inr_iff)
    show "\<forall>j. 0 \<le> j \<and> j < i + 1 \<longrightarrow>
            rd (fst (snd (snd t'))) j = Inr NONE \<and> rd (snd (snd (snd t'))) j = Inr NONE"
    proof (intro allI impI)
      fix j assume j: "0 \<le> j \<and> j < i + 1"
      show "rd (fst (snd (snd t'))) j = Inr NONE \<and> rd (snd (snd (snd t'))) j = Inr NONE"
      proof (cases "j = i")
        case True
        then show ?thesis using rd_wr_same[OF w(1)] rd_wr_same[OF w(2)] t' by simp
      next
        case False
        then have "0 \<le> j \<and> j < i" using j by simp
        with I have "rd c j = Inr NONE \<and> rd d j = Inr NONE" unfolding t by simp
        then show ?thesis using rd_wr_other[OF w(1) False] rd_wr_other[OF w(2) False] t'
          by simp
      qed
    qed
  qed
  then show ?thesis using j by simp
qed

lemma cs_desc_post:
  assumes po: "postordered S par"
    and loop: "for_loop 0 S (cs_desc_step par) (fd0, ld0) = Inr (fd, ld)"
    and init: "\<And>j. 0 \<le> j \<Longrightarrow> j < S \<Longrightarrow> rd fd0 j = Inr NONE \<and> rd ld0 j = Inr NONE"
    and S: "0 \<le> S"
  shows "cs_desc_inv S par S (fd, ld)"
proof (rule for_loop_rule[OF loop S, where I = "cs_desc_inv S par"])
  have "\<not> has_child_below par 0 j" for j by (simp add: has_child_below_iff)
  then show "cs_desc_inv S par 0 (fd0, ld0)"
    unfolding cs_desc_inv_def fst_conv snd_conv using init by simp
next
  fix i t t'
  assume "0 \<le> i" "i < S" "cs_desc_inv S par i t" "cs_desc_step par i t = Inr t'"
  then show "cs_desc_inv S par (i + 1) t'" using cs_desc_inv_step[OF po] by blast
qed

text \<open>
  The pass of \<open>complete_symbolic\<close> over the descendant ranges, on supercolumns that are in
  postorder: for every supercolumn \<open>s\<close> with a child, \<open>last_desc_index[s] = s - 1\<close>
  and the proper descendants of \<open>s\<close> are exactly the indices from \<open>first_desc_index[s]\<close> to
  \<open>s - 1\<close>, all of them below \<open>s\<close>; and a supercolumn without a child has
  \<open>first_desc_index = NONE\<close>.
\<close>

theorem complete_symbolic_descendant_range:
  assumes run: "complete_symbolic symbolic = Inr symbolic'"
    and po: "postordered (number_supercolumns symbolic) (parent (etree symbolic))"
    and s: "0 \<le> s" "s < number_supercolumns symbolic"
  shows "if has_child_below (parent (etree symbolic)) (number_supercolumns symbolic) s
         then rd (last_desc_index (etree symbolic')) s = Inr (s - 1) \<and>
              (\<exists>f. rd (first_desc_index (etree symbolic')) s = Inr f \<and> 0 \<le> f \<and> f < s \<and>
                 (\<forall>c. sc_descendant (number_supercolumns symbolic) (parent (etree symbolic)) c s
                        \<longleftrightarrow> f \<le> c \<and> c < s))
         else rd (first_desc_index (etree symbolic')) s = Inr NONE"
proof -
  let ?S = "number_supercolumns symbolic" and ?par = "parent (etree symbolic)"
  from run obtain fc0 nc0 fd0 ld0 fd ld where
    init: "for_loop 0 ?S cs_init_step
             (first_child (etree symbolic), next_child (etree symbolic),
              first_desc_index (etree symbolic), last_desc_index (etree symbolic))
           = Inr (fc0, nc0, fd0, ld0)"
    and desc: "for_loop 0 ?S (cs_desc_step ?par) (fd0, ld0) = Inr (fd, ld)"
    and res: "first_desc_index (etree symbolic') = fd" "last_desc_index (etree symbolic') = ld"
    by (auto simp: complete_symbolic_def Let_def bnd_Inr_iff split: prod.splits)
  have S0: "0 \<le> ?S" using s by simp
  have inv: "cs_desc_inv ?S ?par ?S (fd, ld)"
    by (rule cs_desc_post[OF po desc cs_init_post[OF init] S0])
  from cs_desc_inv_fd[OF inv s] cs_desc_inv_ld[OF inv s] res s
  show ?thesis by auto
qed

text \<open>The theorem at the root of the four-supercolumn tree: its descendants are 0, 1 and 2.\<close>

theorem complete_symbolic_descendant_range_witness:
  "complete_symbolic tree4_input = Inr tree4_result \<and>
   postordered 4 (parent (etree tree4_input)) \<and>
   has_child_below (parent (etree tree4_input)) 4 3 \<and>
   rd (last_desc_index (etree tree4_result)) 3 = Inr 2 \<and>
   (\<exists>f. rd (first_desc_index (etree tree4_result)) 3 = Inr f \<and> 0 \<le> f \<and> f < 3 \<and>
      (\<forall>c. sc_descendant 4 (parent (etree tree4_input)) c 3 = (f \<le> c \<and> c < 3)))"
proof -
  have run: "complete_symbolic tree4_input = Inr tree4_result"
    by code_simp
  have n: "number_supercolumns tree4_input = 4"
    by code_simp
  have po: "postordered (number_supercolumns tree4_input) (parent (etree tree4_input))"
    by code_simp
  have s: "(0::int) \<le> 3" "3 < number_supercolumns tree4_input"
    by code_simp+
  have hc: "has_child_below (parent (etree tree4_input)) (number_supercolumns tree4_input) 3"
    by code_simp
  from complete_symbolic_descendant_range[OF run po s] hc run po
  show ?thesis unfolding n by simp
qed

section \<open>The assertion on empty columns\<close>

text \<open>No step of the analysis other than the assertion on the pivot column ends in its
  failure.\<close>

lemma no_ec_Inr [no_ec_intros]: "no_ec (Inr x)"
  by (simp add: no_ec_def)

lemma no_ec_rd [no_ec_intros]: "no_ec (rd a i)"
  by (simp add: no_ec_def rd_def split: option.splits)

lemma no_ec_wr [no_ec_intros]: "no_ec (wr a i v)"
  by (simp add: no_ec_def wr_def)

lemma no_ec_memset [no_ec_intros]: "no_ec (memset a v k)"
  by (simp add: no_ec_def memset_def)

lemma no_ec_memcpy [no_ec_intros]: "no_ec (memcpy_within ws d s k)"
  by (simp add: no_ec_def memcpy_within_def)

lemma no_ec_bnd [no_ec_intros]:
  "no_ec m \<Longrightarrow> (\<And>x. m = Inr x \<Longrightarrow> no_ec (f x)) \<Longrightarrow> no_ec (bnd m f)"
  by (cases m) (simp_all add: no_ec_def)

lemma no_ec_if [no_ec_intros]:
  "(c \<Longrightarrow> no_ec a) \<Longrightarrow> (\<not> c \<Longrightarrow> no_ec b) \<Longrightarrow> no_ec (if c then a else b)"
  by simp

lemma no_ec_prod [no_ec_intros]:
  "(\<And>a b. p = (a, b) \<Longrightarrow> no_ec (f a b)) \<Longrightarrow> no_ec (case p of (a, b) \<Rightarrow> f a b)"
  by (cases p) simp

lemma no_ec_for_loop [no_ec_intros]:
  assumes "\<And>i s. lo \<le> i \<Longrightarrow> i < hi \<Longrightarrow> no_ec (body i s)"
  shows "no_ec (for_loop lo hi body s)"
  using assms
proof (induction lo hi body s rule: for_loop.induct)
  case (1 i hi body s)
  show ?case
  proof (cases "i < hi")
    case True
    have b: "no_ec (body i s)" using 1(2)[of i s] True by simp
    show ?thesis
    proof (cases "body i s")
      case (Inl e)
      then show ?thesis using b True by (subst for_loop.simps) (simp add: no_ec_def)
    next
      case (Inr s')
      have "no_ec (for_loop (i + 1) hi body s')"
        by (rule 1(1)[OF True Inr]) (use 1(2) in auto)
      then show ?thesis using Inr True by (subst for_loop.simps) simp
    qed
  next
    case False
    then show ?thesis by (subst for_loop.simps) (simp add: no_ec_def)
  qed
qed

lemma no_ec_uf_find_rec: "no_ec (uf_find_rec k sets x)"
proof (induction k arbitrary: sets x)
  case 0
  then show ?case by (simp add: no_ec_def)
next
  case (Suc k)
  show ?case
    unfolding uf_find_rec.simps
    apply (rule no_ec_bnd)
     apply (rule no_ec_rd)
    apply (rule no_ec_if)
     apply (rule no_ec_bnd)
      apply (rule Suc)
     apply (rule no_ec_prod)
     apply (intro no_ec_intros)
    apply (rule no_ec_Inr)
    done
qed

lemma no_ec_uf_find [no_ec_intros]: "no_ec (uf_find sets x)"
  unfolding uf_find_def by (rule no_ec_uf_find_rec)

lemma no_ec_uf_union [no_ec_intros]: "no_ec (uf_union sets x y)"
  unfolding uf_union_def by (intro no_ec_intros)

lemma no_ec_uf_make_sets [no_ec_intros]: "no_ec (uf_make_sets k)"
  unfolding uf_make_sets_def by (intro no_ec_intros)

lemma no_ec_gc_defragment: "no_ec (gc_defragment el_size xs t)"
proof (induction xs arbitrary: t)
  case Nil
  then show ?case by (simp add: no_ec_def)
next
  case (Cons x xs)
  obtain start number where x: "x = (start, number)" by (cases x)
  obtain ws loc moved where t: "t = (ws, loc, moved)" by (cases t)
  show ?case unfolding x t gc_defragment.simps by (intro no_ec_intros Cons)
qed

lemma no_ec_gc_correct: "no_ec (gc_correct xs el_start)"
proof (induction xs arbitrary: el_start)
  case Nil
  then show ?case by (simp add: no_ec_def)
next
  case (Cons x xs)
  obtain start number where x: "x = (start, number)" by (cases x)
  show ?case unfolding x gc_correct.simps by (intro no_ec_intros Cons)
qed

lemma no_ec_garbage_collect [no_ec_intros]:
  "no_ec (garbage_collect mem ws el_start el_size el_cleared el_num)"
proof (cases mem)
  case False
  then show ?thesis by (simp add: garbage_collect_def no_ec_def)
next
  case True
  then show ?thesis
    unfolding garbage_collect_def gc_live_step_def
    by (simp; intro no_ec_intros no_ec_gc_defragment no_ec_gc_correct)
qed

lemma no_ec_ea_merge_row [no_ec_intros]: "no_ec (ea_merge_row r st)"
  unfolding ea_merge_row_def ea_merge_step_def by (intro no_ec_intros)

lemma no_ec_ea_nz_step [no_ec_intros]: "no_ec (ea_nz_step a_n a_rowind base col i st)"
  unfolding ea_nz_step_def Let_def by (intro no_ec_intros)

lemma no_ec_ea_gc_step: "no_ec (ea_gc_step mem_gc A col st)"
  unfolding ea_gc_step_def by (intro no_ec_intros)

lemma no_ec_ea_finish_col [no_ec_intros]: "no_ec (ea_finish_col a_rowind base col org_col st)"
  unfolding ea_finish_col_def ea_unmark_step_def
  by (intro no_ec_intros) (simp_all add: no_ec_def)

lemma no_empty_columnD:
  assumes "no_empty_column A" and "rd (colptr A) (c + 1) = Inr c1" and "rd (colptr A) c = Inr c0"
  shows "c0 < c1"
proof -
  from assms(2,3) have c: "0 \<le> c" "c + 1 < int (length (colptr A))"
    by (auto simp: rd_Inr_iff)
  with assms(1) have "c \<in> set [0..ccs_n A - 1]"
    by (auto simp: no_empty_column_def)
  with assms(1) have "case rd (colptr A) c of Inl e \<Rightarrow> False
      | Inr a \<Rightarrow> (case rd (colptr A) (c + 1) of Inl e \<Rightarrow> False | Inr b \<Rightarrow> a < b)"
    unfolding no_empty_column_def list_all_iff by blast
  with assms(2,3) show ?thesis by simp
qed

lemma no_ec_ea_pivot_step:
  assumes "no_empty_column A"
  shows "no_ec (ea_pivot_step A column_order col st)"
  unfolding ea_pivot_step_def
  apply (rule no_ec_bnd, rule no_ec_rd)
  apply (rule no_ec_bnd, rule no_ec_rd)
  apply (rule no_ec_bnd, rule no_ec_rd)
  apply (rule no_ec_if)
   apply (use no_empty_columnD[OF assms] in force)
  apply (intro no_ec_intros no_ec_ea_finish_col)
  done

lemma no_ec_ea_col_step:
  "no_empty_column A \<Longrightarrow> no_ec (ea_col_step mem_gc A column_order col st)"
  unfolding ea_col_step_def
  by (rule no_ec_bnd, rule no_ec_ea_gc_step, rule no_ec_ea_pivot_step)

lemma no_ec_ea_init: "no_ec (ea_init A par lsz usz)"
  unfolding ea_init_def ea_count_step_def ea_start_step_def ea_fill_col_def ea_fill_step_def
  by (intro no_ec_intros)

lemma no_ec_elimination_analysis:
  "no_empty_column A \<Longrightarrow> no_ec (elimination_analysis mem mem_gc A column_order par lsz usz)"
  unfolding elimination_analysis_def
  by (intro no_ec_intros no_ec_ea_init no_ec_ea_col_step) (simp_all add: no_ec_def)

lemma for_loop_split:
  assumes "for_loop lo k body s = Inr t" and "lo \<le> k" and "k \<le> hi"
  shows "for_loop lo hi body s = for_loop k hi body t"
  using assms
proof (induction lo k body s rule: for_loop.induct)
  case (1 i k body s)
  show ?case
  proof (cases "i < k")
    case True
    with "1.prems"(1) obtain s' where s': "body i s = Inr s'"
      and rest: "for_loop (i + 1) k body s' = Inr t"
      by (subst (asm) for_loop.simps) (auto split: sum.splits)
    have "for_loop (i + 1) hi body s' = for_loop k hi body t"
      by (rule "1.IH"[OF True s' rest]) (use True "1.prems" in auto)
    moreover have "for_loop i hi body s = for_loop (i + 1) hi body s'"
      using True "1.prems"(3) s' by (subst for_loop.simps) simp
    ultimately show ?thesis by simp
  next
    case False
    with "1.prems" have "i = k" by simp
    moreover from "1.prems"(1) False have "t = s"
      by (subst (asm) for_loop.simps) simp
    ultimately show ?thesis by simp
  qed
qed

lemma for_loop_reaches:
  assumes "for_loop lo hi body s = Inr s'" and "lo \<le> k" and "k < hi"
  shows "\<exists>t t'. for_loop lo k body s = Inr t \<and> body k t = Inr t'"
  using assms
proof (induction lo hi body s rule: for_loop.induct)
  case (1 i hi body s)
  have lt: "i < hi" using "1.prems" by simp
  with "1.prems"(1) obtain s1 where s1: "body i s = Inr s1"
    and rest: "for_loop (i + 1) hi body s1 = Inr s'"
    by (subst (asm) for_loop.simps) (auto split: sum.splits)
  show ?case
  proof (cases "i = k")
    case True
    then show ?thesis using s1 by (auto simp: for_loop_empty)
  next
    case False
    with "1.prems" have "i + 1 \<le> k" by simp
    from "1.IH"[OF lt s1 rest this "1.prems"(3)]
    obtain t t' where t: "for_loop (i + 1) k body s1 = Inr t" "body k t = Inr t'" by blast
    have "for_loop i k body s = for_loop (i + 1) k body s1"
      using False "1.prems"(2) s1 by (subst for_loop.simps) simp
    with t show ?thesis by auto
  qed
qed

lemma ea_pivot_step_empty:
  assumes "empty_pivot_column A column_order k"
  shows "ea_pivot_step A column_order k st = Inl AssertEmptyColumn"
  using assms unfolding empty_pivot_column_def ea_pivot_step_def
  by (auto split: sum.splits)

lemma ea_col_step_empty:
  assumes "empty_pivot_column A column_order k"
  shows "ea_col_step mem_gc A column_order k st \<noteq> Inr st'"
  unfolding ea_col_step_def bnd_Inr_iff
  by (simp add: ea_pivot_step_empty[OF assms])

text \<open>
  Claim C8.  The assertion of \<open>elimination_analysis\<close> on the pivot column,
  \<open>colptr[org_col + 1] > colptr[org_col]\<close>, never fails on a matrix in which every column has a
  stored entry, whatever the column order and the outcome of the allocations.  When the column
  eliminated at pivot step \<open>k\<close> is empty, the analysis never returns a result, and when the run
  gets to that step (the steps before it and the garbage collection at its head return) it ends
  in the failure of this assertion.
\<close>

theorem empty_column_assertion:
  "(no_empty_column A \<longrightarrow>
      elimination_analysis mem mem_gc A column_order par lsz usz \<noteq> Inl AssertEmptyColumn) \<and>
   (0 \<le> k \<and> k < ccs_n A \<and> empty_pivot_column A column_order k \<longrightarrow>
      (\<forall>r. elimination_analysis mem mem_gc A column_order par lsz usz \<noteq> Inr r) \<and>
      (\<forall>st0 st st1.
         mem \<and> ea_init A par lsz usz = Inr st0 \<and>
         for_loop 0 k (ea_col_step mem_gc A column_order) st0 = Inr st \<and>
         ea_gc_step mem_gc A k st = Inr st1 \<longrightarrow>
         elimination_analysis mem mem_gc A column_order par lsz usz = Inl AssertEmptyColumn))"
proof (intro conjI impI allI)
  assume "no_empty_column A"
  from no_ec_elimination_analysis[OF this]
  show "elimination_analysis mem mem_gc A column_order par lsz usz \<noteq> Inl AssertEmptyColumn"
    by (simp add: no_ec_def)
next
  fix r
  assume k: "0 \<le> k \<and> k < ccs_n A \<and> empty_pivot_column A column_order k"
  show "elimination_analysis mem mem_gc A column_order par lsz usz \<noteq> Inr r"
  proof
    assume "elimination_analysis mem mem_gc A column_order par lsz usz = Inr r"
    then obtain st0 st where
      "for_loop 0 (ccs_n A) (ea_col_step mem_gc A column_order) st0 = Inr st"
      by (auto simp: elimination_analysis_def bnd_Inr_iff split: if_splits)
    from for_loop_reaches[OF this, of k] k
    obtain t t' where "ea_col_step mem_gc A column_order k t = Inr t'" by auto
    with ea_col_step_empty k show False by blast
  qed
next
  fix st0 st st1
  assume k: "0 \<le> k \<and> k < ccs_n A \<and> empty_pivot_column A column_order k"
    and run: "mem \<and> ea_init A par lsz usz = Inr st0 \<and>
         for_loop 0 k (ea_col_step mem_gc A column_order) st0 = Inr st \<and>
         ea_gc_step mem_gc A k st = Inr st1"
  have "for_loop 0 (ccs_n A) (ea_col_step mem_gc A column_order) st0
        = for_loop k (ccs_n A) (ea_col_step mem_gc A column_order) st"
    by (rule for_loop_split) (use k run in auto)
  also have "\<dots> = Inl AssertEmptyColumn"
    using k run
    by (subst for_loop.simps) (simp add: ea_col_step_def ea_pivot_step_empty)
  finally show "elimination_analysis mem mem_gc A column_order par lsz usz = Inl AssertEmptyColumn"
    using run by (simp add: elimination_analysis_def)
qed

lemma arrow3_no_empty: "no_empty_column arrow3"
  by code_simp

lemma empty2_pivot: "empty_pivot_column empty2 (from_list [0, 1]) 1"
  by code_simp

lemma empty2_reaches:
  "case ea_init empty2 (malloc 3) (malloc 3) (malloc 3) of Inl e \<Rightarrow> False
   | Inr st0 \<Rightarrow> (case for_loop 0 1 (ea_col_step True empty2 (from_list [0, 1])) st0 of
        Inl e \<Rightarrow> False
      | Inr st \<Rightarrow> (case ea_gc_step True empty2 1 st of Inl e \<Rightarrow> False | Inr st1 \<Rightarrow> True))"
  by code_simp

text \<open>The arrow matrix of order 3 has no empty column; in \<open>empty2\<close> the second column is empty
  and the analysis stops at its pivot step.\<close>

theorem empty_column_assertion_witness:
  "no_empty_column arrow3 \<and>
   elimination_analysis True True arrow3 (from_list [0, 1, 2]) (malloc 4) (malloc 4) (malloc 4)
     \<noteq> Inl AssertEmptyColumn \<and>
   empty_pivot_column empty2 (from_list [0, 1]) 1 \<and>
   elimination_analysis True True empty2 (from_list [0, 1]) (malloc 3) (malloc 3) (malloc 3)
     = Inl AssertEmptyColumn"
proof -
  have a: "elimination_analysis True True arrow3 (from_list [0, 1, 2]) (malloc 4) (malloc 4) (malloc 4)
     \<noteq> Inl AssertEmptyColumn"
    using empty_column_assertion[of arrow3 True True "from_list [0, 1, 2]" "malloc 4" "malloc 4" "malloc 4" 0]
      arrow3_no_empty by simp
  obtain st0 st st1 where r: "ea_init empty2 (malloc 3) (malloc 3) (malloc 3) = Inr st0"
    "for_loop 0 1 (ea_col_step True empty2 (from_list [0, 1])) st0 = Inr st"
    "ea_gc_step True empty2 1 st = Inr st1"
    using empty2_reaches by (auto split: sum.splits)
  have n: "ccs_n empty2 = 2" by (simp add: empty2_def)
  have b: "elimination_analysis True True empty2 (from_list [0, 1]) (malloc 3) (malloc 3) (malloc 3)
     = Inl AssertEmptyColumn"
  proof -
    note t = empty_column_assertion[of empty2 True True "from_list [0, 1]" "malloc 3" "malloc 3" "malloc 3" 1]
    have h: "0 \<le> (1::int) \<and> 1 < ccs_n empty2 \<and> empty_pivot_column empty2 (from_list [0, 1]) 1"
      using empty2_pivot n by simp
    from t[THEN conjunct2, rule_format, OF h] r show ?thesis by simp
  qed
  from a b arrow3_no_empty empty2_pivot show ?thesis by simp
qed

section \<open>The column map of a supercolumn\<close>

lemma all_minus1_iff:
  "all_minus1 a \<longleftrightarrow> (\<forall>c. 0 \<le> c \<and> c < int (length a) \<longrightarrow> rd a c = Inr (-1))"
proof
  assume a: "all_minus1 a"
  show "\<forall>c. 0 \<le> c \<and> c < int (length a) \<longrightarrow> rd a c = Inr (-1)"
  proof (intro allI impI)
    fix c assume c: "0 \<le> c \<and> c < int (length a)"
    then have "nat c < length a" by linarith
    then have "a ! nat c \<in> set a" by (rule nth_mem)
    with a have "a ! nat c = Some (-1)" by (auto simp: all_minus1_def list_all_iff)
    with c show "rd a c = Inr (-1)" by (simp add: rd_def)
  qed
next
  assume h: "\<forall>c. 0 \<le> c \<and> c < int (length a) \<longrightarrow> rd a c = Inr (-1)"
  show "all_minus1 a"
    unfolding all_minus1_def list_all_length
  proof (intro allI impI)
    fix n assume n: "n < length a"
    with h have "rd a (int n) = Inr (-1)" by simp
    then show "a ! n = Some (-1)" by (auto simp: rd_Inr_iff)
  qed
qed

lemma mc_invI:
  assumes "length map_cols = len" and "0 \<le> sz"
    and "\<And>c. 0 \<le> c \<Longrightarrow> c < int len \<Longrightarrow>
           \<exists>v. rd map_cols c = Inr v \<and> (v \<noteq> -1 \<longrightarrow> lo \<le> v \<and> v < sz \<and> rd ind (off + v) = Inr c)"
  shows "mc_inv len off lo sz ind map_cols"
  using assms unfolding mc_inv_def by blast

lemma mc_inv_length: "mc_inv len off lo sz ind map_cols \<Longrightarrow> length map_cols = len"
  unfolding mc_inv_def by (elim conjE)

lemma mc_inv_size: "mc_inv len off lo sz ind map_cols \<Longrightarrow> 0 \<le> sz"
  unfolding mc_inv_def by (elim conjE)

lemma mc_inv_cell:
  assumes "mc_inv len off lo sz ind map_cols" and "0 \<le> c" and "c < int len"
  obtains v where "rd map_cols c = Inr v"
    and "v \<noteq> -1 \<Longrightarrow> lo \<le> v \<and> v < sz \<and> rd ind (off + v) = Inr c"
proof -
  from assms(1) have "\<forall>c. 0 \<le> c \<and> c < int len \<longrightarrow>
        (\<exists>v. rd map_cols c = Inr v \<and>
             (v \<noteq> -1 \<longrightarrow> lo \<le> v \<and> v < sz \<and> rd ind (off + v) = Inr c))"
    unfolding mc_inv_def by (elim conjE)
  from this[rule_format, of c] assms(2,3) that show thesis by blast
qed

lemma mc_inv_init:
  assumes "all_minus1 map_cols"
  shows "mc_inv (length map_cols) off 0 0 ind map_cols"
proof (rule mc_invI)
  fix c assume "0 \<le> c" "c < int (length map_cols)"
  with assms have "rd map_cols c = Inr (-1)" by (simp add: all_minus1_iff)
  then show "\<exists>v. rd map_cols c = Inr v \<and> (v \<noteq> -1 \<longrightarrow> 0 \<le> v \<and> v < 0 \<and> rd ind (off + v) = Inr c)"
    by simp
qed simp_all

lemma mc_inv_done:
  assumes "mc_inv len off sz sz ind map_cols"
  shows "all_minus1 map_cols \<and> length map_cols = len"
proof -
  have len: "length map_cols = len" by (rule mc_inv_length[OF assms])
  have "rd map_cols c = Inr (-1)" if "0 \<le> c \<and> c < int (length map_cols)" for c
  proof -
    from that len have c: "0 \<le> c" "c < int len" by simp_all
    from mc_inv_cell[OF assms c] obtain v where v: "rd map_cols c = Inr v"
      and r: "v \<noteq> -1 \<Longrightarrow> sz \<le> v \<and> v < sz \<and> rd ind (off + v) = Inr c" by blast
    from r have "v = -1" by force
    with v show ?thesis by simp
  qed
  then show ?thesis using len by (simp add: all_minus1_iff)
qed

lemma fr_add_inv:
  assumes inv: "mc_inv len off 0 (fr_size t) (fr_ind t) (fr_map_cols t)"
    and run: "fr_add off column t = Inr t'"
  shows "mc_inv len off 0 (fr_size t') (fr_ind t') (fr_map_cols t')"
proof -
  from run obtain mc where mc: "rd (fr_map_cols t) column = Inr mc"
    and rest: "(if mc \<noteq> -1 then Inr t
       else bnd (wr (fr_ind t) (off + fr_size t) column) (\<lambda>ind'.
            bnd (wr (fr_map_cols t) column (fr_size t)) (\<lambda>map_cols'.
            Inr (t \<lparr> fr_ind := ind', fr_map_cols := map_cols', fr_size := fr_size t + 1 \<rparr>)))) = Inr t'"
    unfolding fr_add_def bnd_Inr_iff by blast
  show ?thesis
  proof (cases "mc \<noteq> -1")
    case True
    with rest have "t' = t" by simp
    with inv show ?thesis by simp
  next
    case False
    with rest obtain ind' map_cols' where
      wi: "wr (fr_ind t) (off + fr_size t) column = Inr ind'"
      and wm: "wr (fr_map_cols t) column (fr_size t) = Inr map_cols'"
      and t': "t' = t \<lparr> fr_ind := ind', fr_map_cols := map_cols', fr_size := fr_size t + 1 \<rparr>"
      by (auto simp: bnd_Inr_iff)
    have sz: "0 \<le> fr_size t" by (rule mc_inv_size[OF inv])
    have "mc_inv len off 0 (fr_size t + 1) ind' map_cols'"
    proof (rule mc_invI)
      show "length map_cols' = len" using wr_length[OF wm] mc_inv_length[OF inv] by simp
      show "0 \<le> fr_size t + 1" using sz by simp
    next
      fix c assume c: "0 \<le> c" "c < int len"
      show "\<exists>v. rd map_cols' c = Inr v \<and>
              (v \<noteq> -1 \<longrightarrow> 0 \<le> v \<and> v < fr_size t + 1 \<and> rd ind' (off + v) = Inr c)"
      proof (cases "c = column")
        case True
        have "rd map_cols' c = Inr (fr_size t)" using rd_wr_same[OF wm] True by simp
        moreover have "rd ind' (off + fr_size t) = Inr c" using rd_wr_same[OF wi] True by simp
        ultimately show ?thesis using sz by simp
      next
        case False
        from mc_inv_cell[OF inv c] obtain v where v: "rd (fr_map_cols t) c = Inr v"
          and r: "v \<noteq> -1 \<Longrightarrow> 0 \<le> v \<and> v < fr_size t \<and> rd (fr_ind t) (off + v) = Inr c" by blast
        have 1: "rd map_cols' c = Inr v" using rd_wr_other[OF wm False] v by simp
        have 2: "0 \<le> v \<and> v < fr_size t + 1 \<and> rd ind' (off + v) = Inr c" if "v \<noteq> -1"
        proof -
          from r[OF that] have a: "0 \<le> v" "v < fr_size t" "rd (fr_ind t) (off + v) = Inr c"
            by simp_all
          have "off + v \<noteq> off + fr_size t" using a by simp
          from rd_wr_other[OF wi this] a show ?thesis by simp
        qed
        from 1 2 show ?thesis by blast
      qed
    qed
    then show ?thesis by (simp add: t')
  qed
qed

lemma fr_entry_step_inv:
  assumes "mc_inv len off 0 (fr_size t) (fr_ind t) (fr_map_cols t)"
    and "fr_entry_step At column_cleared off i t = Inr t'"
  shows "mc_inv len off 0 (fr_size t') (fr_ind t') (fr_map_cols t')"
proof -
  from assms(2) have "t' = t \<or> (\<exists>column. fr_add off column t = Inr t')"
    unfolding fr_entry_step_def by (auto simp: bnd_Inr_iff split: if_splits)
  then show ?thesis using assms(1) fr_add_inv by blast
qed

lemma fr_row_step_inv:
  assumes inv: "mc_inv len off 0 (fr_size t) (fr_ind t) (fr_map_cols t)"
    and run: "fr_row_step At column_cleared rows off max_size row_ind t = Inr t'"
  shows "mc_inv len off 0 (fr_size t') (fr_ind t') (fr_map_cols t')"
proof -
  from run obtain c0 c1 t1 rc' where
    loop: "for_loop c0 c1 (fr_entry_step At column_cleared off) t = Inr t1"
    and t': "t' = t1 \<lparr> fr_row_cleared := rc' \<rparr>"
    unfolding fr_row_step_def by (auto simp: bnd_Inr_iff split: if_splits)
  have "mc_inv len off 0 (fr_size t1) (fr_ind t1) (fr_map_cols t1)"
    by (rule for_loop_inv[OF loop, where P = "\<lambda>t. mc_inv len off 0 (fr_size t) (fr_ind t) (fr_map_cols t)"])
       (use inv fr_entry_step_inv in blast)+
  then show ?thesis by (simp add: t')
qed

lemma fr_contrib_col_step_inv:
  assumes "mc_inv len off 0 (fr_size t) (fr_ind t) (fr_map_cols t)"
    and "fr_contrib_col_step column_cleared off cb i t = Inr t'"
  shows "mc_inv len off 0 (fr_size t') (fr_ind t') (fr_map_cols t')"
proof -
  from assms(2) obtain col where "fr_add off col t = Inr t'"
    unfolding fr_contrib_col_step_def by (auto simp: bnd_Inr_iff split: if_splits)
  then show ?thesis using assms(1) fr_add_inv by blast
qed

lemma fr_contrib_row_step_inv:
  assumes inv: "mc_inv len off 0 (fr_size (snd p)) (fr_ind (snd p)) (fr_map_cols (snd p))"
    and run: "fr_contrib_row_step column_cleared rows off max_size row_ind p = Inr p'"
  shows "mc_inv len off 0 (fr_size (snd p')) (fr_ind (snd p')) (fr_map_cols (snd p'))"
proof -
  obtain cbo t where p: "p = (cbo, t)" by (cases p)
  show ?thesis
  proof (cases cbo)
    case None
    with run p have "p' = p" by (simp add: fr_contrib_row_step_def)
    with inv show ?thesis by simp
  next
    case (Some cb)
    from run have "snd p' = t \<or>
        (\<exists>t1. for_loop 0 (cb_n cb) (fr_contrib_col_step column_cleared off cb) t = Inr t1 \<and>
              snd p' = t1)"
      unfolding fr_contrib_row_step_def p Some
      by (auto simp: bnd_Inr_iff split: if_splits)
    then show ?thesis
    proof
      assume "snd p' = t"
      with inv p show ?thesis by simp
    next
      assume "\<exists>t1. for_loop 0 (cb_n cb) (fr_contrib_col_step column_cleared off cb) t = Inr t1 \<and>
              snd p' = t1"
      then obtain t1 where
        loop: "for_loop 0 (cb_n cb) (fr_contrib_col_step column_cleared off cb) t = Inr t1"
        and s: "snd p' = t1" by blast
      have "mc_inv len off 0 (fr_size t1) (fr_ind t1) (fr_map_cols t1)"
        by (rule for_loop_inv[OF loop, where P = "\<lambda>t. mc_inv len off 0 (fr_size t) (fr_ind t) (fr_map_cols t)"])
           (use inv p fr_contrib_col_step_inv in auto)
      with s show ?thesis by simp
    qed
  qed
qed

lemma fr_desc_step_inv:
  assumes inv: "mc_inv len off 0 (fr_size t) (fr_ind t) (fr_map_cols t)"
    and run: "fr_desc_step blocks column_cleared rows number off max_size c t = Inr t'"
  shows "mc_inv len off 0 (fr_size t') (fr_ind t') (fr_map_cols t')"
proof -
  from run obtain cbo where
    rest: "(case cbo of
       None \<Rightarrow> Inr t
     | Some cb \<Rightarrow>
         bnd (for_loop 0 number (fr_contrib_row_step column_cleared rows off max_size)
                (Some cb, t)) (\<lambda>(cb', t1).
         bnd (set_contrib (fr_contribs t1) c cb') (\<lambda>contribs'.
         Inr (t1 \<lparr> fr_contribs := contribs' \<rparr>)))) = Inr t'"
    unfolding fr_desc_step_def bnd_Inr_iff by blast
  show ?thesis
  proof (cases cbo)
    case None
    with rest inv show ?thesis by simp
  next
    case (Some cb)
    with rest have "bnd (for_loop 0 number (fr_contrib_row_step column_cleared rows off max_size)
                (Some cb, t)) (\<lambda>(cb', t1).
         bnd (set_contrib (fr_contribs t1) c cb') (\<lambda>contribs'.
         Inr (t1 \<lparr> fr_contribs := contribs' \<rparr>))) = Inr t'" by simp
    then obtain x where
      loop: "for_loop 0 number (fr_contrib_row_step column_cleared rows off max_size)
                (Some cb, t) = Inr x"
      and r2: "(case x of (cb', t1) \<Rightarrow>
         bnd (set_contrib (fr_contribs t1) c cb') (\<lambda>contribs'.
         Inr (t1 \<lparr> fr_contribs := contribs' \<rparr>))) = Inr t'"
      unfolding bnd_Inr_iff by blast
    obtain cb' t1 where x: "x = (cb', t1)" by (cases x)
    from r2 x obtain contribs' where t': "t' = t1 \<lparr> fr_contribs := contribs' \<rparr>"
      by (auto simp: bnd_Inr_iff)
    have "mc_inv len off 0 (fr_size (snd x)) (fr_ind (snd x)) (fr_map_cols (snd x))"
      by (rule for_loop_inv[OF loop,
            where P = "\<lambda>p. mc_inv len off 0 (fr_size (snd p)) (fr_ind (snd p)) (fr_map_cols (snd p))"])
         (use inv fr_contrib_row_step_inv in auto)
    then show ?thesis by (simp add: t' x)
  qed
qed

lemma focus_rows_inv:
  assumes run: "focus_rows At symbolic blocks column_cleared rows number pivot_supercol off
                  max_size t = Inr t'"
    and init: "all_minus1 (fr_map_cols t)"
  shows "mc_inv (length (fr_map_cols t)) off 0 (fr_size t') (fr_ind t') (fr_map_cols t')"
proof -
  let ?P = "\<lambda>t'. mc_inv (length (fr_map_cols t)) off 0 (fr_size t') (fr_ind t') (fr_map_cols t')"
  from run obtain t1 fd where
    l1: "for_loop 0 number (fr_row_step At column_cleared rows off max_size)
            (t \<lparr> fr_size := 0 \<rparr>) = Inr t1"
    and rest: "(if fd \<noteq> NONE
     then for_loop fd pivot_supercol
            (fr_desc_step blocks column_cleared rows number off max_size) t1
     else Inr t1) = Inr t'"
    unfolding focus_rows_def bnd_Inr_iff by blast
  have P0: "?P (t \<lparr> fr_size := 0 \<rparr>)" using mc_inv_init[OF init] by simp
  have P1: "?P t1"
    by (rule for_loop_inv[OF l1, where P = ?P]) (use P0 fr_row_step_inv in blast)+
  show ?thesis
  proof (cases "fd \<noteq> NONE")
    case True
    with rest have l2: "for_loop fd pivot_supercol
            (fr_desc_step blocks column_cleared rows number off max_size) t1 = Inr t'" by simp
    show ?thesis
      by (rule for_loop_inv[OF l2, where P = ?P]) (use P1 fr_desc_step_inv in blast)+
  next
    case False
    with rest P1 show ?thesis by simp
  qed
qed

lemma rd_realloc:
  assumes "rd a i = Inr v" and "i < k"
  shows "rd (realloc a k) i = Inr v"
proof -
  from assms(1) have i: "0 \<le> i" "i < int (length a)" "a ! nat i = Some v"
    by (auto simp: rd_Inr_iff)
  have n: "nat i < nat k" using i assms(2) by linarith
  have l: "nat i < length (take (nat k) a)" using i n by simp
  have "realloc a k ! nat i = Some v"
    unfolding realloc_def using l i n by (simp add: nth_append)
  moreover have "i < int (length (realloc a k))"
    unfolding realloc_def using i n by simp linarith
  ultimately show ?thesis using i by (simp add: rd_def)
qed

lemma mc_inv_realloc:
  assumes inv: "mc_inv len off 0 sz ind map_cols"
  shows "mc_inv len off 0 sz (realloc ind (off + sz)) map_cols"
proof (rule mc_invI)
  fix c assume c: "0 \<le> c" "c < int len"
  from mc_inv_cell[OF inv c] obtain v where v: "rd map_cols c = Inr v"
    and r: "v \<noteq> -1 \<Longrightarrow> 0 \<le> v \<and> v < sz \<and> rd ind (off + v) = Inr c" by blast
  have "0 \<le> v \<and> v < sz \<and> rd (realloc ind (off + sz)) (off + v) = Inr c" if "v \<noteq> -1"
    using r[OF that] rd_realloc[of ind "off + v" c "off + sz"] by simp
  with v show "\<exists>v. rd map_cols c = Inr v \<and>
      (v \<noteq> -1 \<longrightarrow> 0 \<le> v \<and> v < sz \<and> rd (realloc ind (off + sz)) (off + v) = Inr c)"
    by blast
qed (use mc_inv_length[OF inv] mc_inv_size[OF inv] in simp_all)

lemma ra_step_inv:
  assumes inv: "mc_inv len off 0 sz (ra_cols t) (ra_map_cols t)"
    and sc: "int (length (ra_scratch t)) = sz"
    and run: "ra_step symbolic off parent_supercol col_c t = Inr t'"
  shows "mc_inv len off 0 sz (ra_cols t') (ra_map_cols t') \<and> int (length (ra_scratch t')) = sz"
proof -
  from run obtain column mc where mc: "rd (ra_map_cols t) column = Inr mc"
    and rest: "(if mc \<noteq> -1
     then bnd (wr (ra_scratch t) (ra_num_inparent t) (mc + 1)) (\<lambda>scratch'.
          bnd (rd (ra_cols t) (off + ra_num_inparent t)) (\<lambda>switched_column.
          bnd (wr (ra_cols t) (off + ra_num_inparent t) column) (\<lambda>cols1.
          bnd (wr cols1 (off + mc) switched_column) (\<lambda>cols2.
          bnd (wr (ra_map_cols t) switched_column mc) (\<lambda>map_cols1.
          bnd (wr map_cols1 column (ra_num_inparent t)) (\<lambda>map_cols2.
          Inr \<lparr> ra_num_inparent = ra_num_inparent t + 1, ra_cols = cols2,
                ra_map_cols = map_cols2, ra_scratch = scratch' \<rparr>))))))
     else Inr t) = Inr t'"
    unfolding ra_step_def bnd_Inr_iff by blast
  show ?thesis
  proof (cases "mc \<noteq> -1")
    case False
    with rest inv sc show ?thesis by simp
  next
    case True
    let ?n = "ra_num_inparent t"
    from True rest obtain scratch' sw cols1 cols2 mc1 mc2 where
      ws: "wr (ra_scratch t) ?n (mc + 1) = Inr scratch'"
      and rs: "rd (ra_cols t) (off + ?n) = Inr sw"
      and w1: "wr (ra_cols t) (off + ?n) column = Inr cols1"
      and w2: "wr cols1 (off + mc) sw = Inr cols2"
      and w3: "wr (ra_map_cols t) sw mc = Inr mc1"
      and w4: "wr mc1 column ?n = Inr mc2"
      and t': "t' = \<lparr> ra_num_inparent = ?n + 1, ra_cols = cols2,
                ra_map_cols = mc2, ra_scratch = scratch' \<rparr>"
      by (auto simp: bnd_Inr_iff)
    have n: "0 \<le> ?n" "?n < sz" using ws sc by (auto simp: wr_Inr_iff)
    have len: "length (ra_map_cols t) = len" by (rule mc_inv_length[OF inv])
    have colr: "0 \<le> column" "column < int len" using mc len by (auto simp: rd_Inr_iff)
    from mc_inv_cell[OF inv colr] mc True
    have loc: "0 \<le> mc" "mc < sz" "rd (ra_cols t) (off + mc) = Inr column" by auto
    have cols2_n: "rd cols2 (off + ?n) = Inr column"
    proof (cases "mc = ?n")
      case True
      with rs loc have "sw = column" by simp
      with rd_wr_same[OF w2] True show ?thesis by simp
    next
      case False
      then have "off + ?n \<noteq> off + mc" by simp
      from rd_wr_other[OF w2 this] rd_wr_same[OF w1] show ?thesis by simp
    qed
    have cols2_loc: "rd cols2 (off + mc) = Inr sw" by (rule rd_wr_same[OF w2])
    have cols2_other: "rd cols2 (off + v) = rd (ra_cols t) (off + v)" if "v \<noteq> mc" "v \<noteq> ?n" for v
    proof -
      have "off + v \<noteq> off + mc" "off + v \<noteq> off + ?n" using that by simp_all
      from rd_wr_other[OF w2 this(1)] rd_wr_other[OF w1 this(2)] show ?thesis by simp
    qed
    have "mc_inv len off 0 sz cols2 mc2"
    proof (rule mc_invI)
      show "length mc2 = len" using wr_length[OF w4] wr_length[OF w3] len by simp
      show "0 \<le> sz" by (rule mc_inv_size[OF inv])
    next
      fix c assume c: "0 \<le> c" "c < int len"
      show "\<exists>v. rd mc2 c = Inr v \<and> (v \<noteq> -1 \<longrightarrow> 0 \<le> v \<and> v < sz \<and> rd cols2 (off + v) = Inr c)"
      proof (cases "c = column")
        case True
        have "rd mc2 c = Inr ?n" using rd_wr_same[OF w4] True by simp
        with n cols2_n True show ?thesis by simp
      next
        case nc: False
        show ?thesis
        proof (cases "c = sw")
          case True
          have "rd mc2 c = Inr mc" using rd_wr_other[OF w4 nc] rd_wr_same[OF w3] True by simp
          with loc cols2_loc True show ?thesis by simp
        next
          case ns: False
          from mc_inv_cell[OF inv c] obtain v where v: "rd (ra_map_cols t) c = Inr v"
            and r: "v \<noteq> -1 \<Longrightarrow> 0 \<le> v \<and> v < sz \<and> rd (ra_cols t) (off + v) = Inr c" by blast
          have 1: "rd mc2 c = Inr v" using rd_wr_other[OF w4 nc] rd_wr_other[OF w3 ns] v by simp
          have 2: "0 \<le> v \<and> v < sz \<and> rd cols2 (off + v) = Inr c" if "v \<noteq> -1"
          proof -
            from r[OF that] have a: "0 \<le> v" "v < sz" "rd (ra_cols t) (off + v) = Inr c" by simp_all
            have "v \<noteq> mc" using a loc nc by auto
            moreover have "v \<noteq> ?n" using a rs ns by auto
            ultimately show ?thesis using cols2_other a by simp
          qed
          from 1 2 show ?thesis by blast
        qed
      qed
    qed
    moreover have "int (length scratch') = sz" using wr_length[OF ws] sc by simp
    ultimately show ?thesis by (simp add: t')
  qed
qed

lemma rearrange_non_pivot_cols_inv:
  assumes inv: "mc_inv len off 0 ru_size cols map_cols"
    and run: "rearrange_non_pivot_cols symbolic pivot_supercol off ru_size cols map_cols
              = Inr (k, cols', map_cols')"
  shows "mc_inv len off 0 ru_size cols' map_cols'"
proof -
  from run obtain parent_supercol where
    rest: "(if parent_supercol = NONE then Inr (0, cols, map_cols)
     else
     bnd (rd (supercolumn_size symbolic) parent_supercol) (\<lambda>psize.
     bnd (for_loop 0 psize (ra_step symbolic off parent_supercol)
            \<lparr> ra_num_inparent = 0, ra_cols = cols, ra_map_cols = map_cols,
              ra_scratch = malloc ru_size \<rparr>) (\<lambda>t.
     Inr (ra_num_inparent t, ra_cols t, ra_map_cols t)))) = Inr (k, cols', map_cols')"
    unfolding rearrange_non_pivot_cols_def bnd_Inr_iff by blast
  show ?thesis
  proof (cases "parent_supercol = NONE")
    case True
    with rest inv show ?thesis by simp
  next
    case False
    with rest obtain psize t where
      loop: "for_loop 0 psize (ra_step symbolic off parent_supercol)
            \<lparr> ra_num_inparent = 0, ra_cols = cols, ra_map_cols = map_cols,
              ra_scratch = malloc ru_size \<rparr> = Inr t"
      and res: "cols' = ra_cols t" "map_cols' = ra_map_cols t"
      by (auto simp: bnd_Inr_iff)
    let ?P = "\<lambda>t. mc_inv len off 0 ru_size (ra_cols t) (ra_map_cols t) \<and>
                  int (length (ra_scratch t)) = ru_size"
    have "?P t"
    proof (rule for_loop_inv[OF loop, where P = ?P])
      show "?P \<lparr> ra_num_inparent = 0, ra_cols = cols, ra_map_cols = map_cols,
              ra_scratch = malloc ru_size \<rparr>"
        using inv mc_inv_size[OF inv] by (simp add: malloc_def)
    next
      fix i t t' assume "?P t" "ra_step symbolic off parent_supercol i t = Inr t'"
      then show "?P t'" using ra_step_inv by blast
    qed
    then show ?thesis by (simp add: res)
  qed
qed

lemma fs_clear_inv:
  assumes loop: "for_loop 0 sz (fs_clear_step cols off) map_cols = Inr map_cols'"
    and inv: "mc_inv len off 0 sz cols map_cols"
  shows "all_minus1 map_cols' \<and> length map_cols' = len"
proof -
  have "mc_inv len off sz sz cols map_cols'"
  proof (rule for_loop_rule[OF loop, where I = "\<lambda>i m. mc_inv len off i sz cols m"])
    show "0 \<le> sz" by (rule mc_inv_size[OF inv])
    show "mc_inv len off 0 sz cols map_cols" by (rule inv)
  next
    fix i m m' assume i: "0 \<le> i" "i < sz" and I: "mc_inv len off i sz cols m"
      and step: "fs_clear_step cols off i m = Inr m'"
    from step obtain x where x: "rd cols (off + i) = Inr x" and w: "wr m x (-1) = Inr m'"
      unfolding fs_clear_step_def bnd_Inr_iff by blast
    show "mc_inv len off (i + 1) sz cols m'"
    proof (rule mc_invI)
      show "length m' = len" using wr_length[OF w] mc_inv_length[OF I] by simp
      show "0 \<le> sz" using i by simp
    next
      fix c assume c: "0 \<le> c" "c < int len"
      show "\<exists>v. rd m' c = Inr v \<and> (v \<noteq> -1 \<longrightarrow> i + 1 \<le> v \<and> v < sz \<and> rd cols (off + v) = Inr c)"
      proof (cases "c = x")
        case True
        then show ?thesis using rd_wr_same[OF w] by simp
      next
        case False
        from mc_inv_cell[OF I c] obtain v where v: "rd m c = Inr v"
          and r: "v \<noteq> -1 \<Longrightarrow> i \<le> v \<and> v < sz \<and> rd cols (off + v) = Inr c" by blast
        have 1: "rd m' c = Inr v" using rd_wr_other[OF w False] v by simp
        have 2: "i + 1 \<le> v \<and> v < sz \<and> rd cols (off + v) = Inr c" if "v \<noteq> -1"
        proof -
          from r[OF that] have a: "i \<le> v" "v < sz" "rd cols (off + v) = Inr c" by simp_all
          have "v \<noteq> i" using a x False by auto
          with a show ?thesis by simp
        qed
        from 1 2 show ?thesis by blast
      qed
    qed
  qed
  then show ?thesis by (rule mc_inv_done)
qed

lemma fs_u_portion_inv:
  assumes run: "fs_u_portion nproc symbolic At assemble pivot_supercol factor_block mu_size
       col_b_size only_child parent_has_job st map_cols = Inr (ru_size, fb1, st2, map_cols2)"
    and init: "all_minus1 map_cols"
  shows "mc_inv (length map_cols) col_b_size 0 ru_size (fb_pivot_cols fb1) map_cols2"
proof -
  let ?len = "length map_cols"
  let ?t0 = "\<lparr> fr_size = 0, fr_ind = fb_pivot_cols factor_block, fr_map_cols = map_cols,
              fr_row_cleared = fs_row_cleared st, fr_contribs = fs_contribs st \<rparr>"
  from run obtain t where
    fr: "focus_rows At symbolic (fs_blocks st) (fs_column_cleared st)
            (fb_pivot_rows factor_block) (min (fb_l_size factor_block) col_b_size) pivot_supercol
            col_b_size mu_size ?t0 = Inr t"
    and rest: "(let ru_size = fr_size t;
         cols = realloc (fr_ind t) (col_b_size + ru_size);
         st1 = st \<lparr> fs_row_cleared := fr_row_cleared t, fs_contribs := fr_contribs t \<rparr> in
     if ru_size > 0
     then
       bnd (if only_child \<and> parent_has_job \<and> nproc > 1
            then rearrange_non_pivot_cols symbolic pivot_supercol col_b_size ru_size cols
                   (fr_map_cols t)
            else Inr (0, cols, fr_map_cols t)) (\<lambda>(num_cols_in_parent, cols1, map_cols1).
       let factor_block1 = factor_block \<lparr> fb_pivot_cols := cols1 \<rparr> in
       bnd (set_block (fs_blocks st1) pivot_supercol factor_block1) (\<lambda>blocks1.
       bnd (for_loop 0 (fb_l_size factor_block - min (fb_l_size factor_block) col_b_size)
              (fs_map_rows_step (fb_pivot_rows factor_block) (min (fb_l_size factor_block) col_b_size))
              (fs_map_rows st1)) (\<lambda>map_rows1.
       let st2 = st1 \<lparr> fs_blocks := blocks1, fs_map_rows := map_rows1 \<rparr> in
       if fb_l_size factor_block - min (fb_l_size factor_block) col_b_size > 0
       then bnd (assemble pivot_supercol num_cols_in_parent st2 map_cols1) (\<lambda>contribs'.
            Inr (ru_size, factor_block1, st2 \<lparr> fs_contribs := contribs' \<rparr>, map_cols1))
       else Inr (ru_size, factor_block1, st2, map_cols1))))
     else Inr (ru_size, factor_block \<lparr> fb_pivot_cols := cols \<rparr>, st1, fr_map_cols t))
     = Inr (ru_size, fb1, st2, map_cols2)"
    unfolding fs_u_portion_def Let_def bnd_Inr_iff by blast
  have "mc_inv ?len col_b_size 0 (fr_size t) (fr_ind t) (fr_map_cols t)"
    using focus_rows_inv[OF fr] init by simp
  then have inv: "mc_inv ?len col_b_size 0 (fr_size t)
                    (realloc (fr_ind t) (col_b_size + fr_size t)) (fr_map_cols t)"
    by (rule mc_inv_realloc)
  show ?thesis
  proof (cases "fr_size t > 0")
    case False
    with rest have "ru_size = fr_size t"
      "fb_pivot_cols fb1 = realloc (fr_ind t) (col_b_size + fr_size t)"
      "map_cols2 = fr_map_cols t"
      by (auto simp: Let_def)
    with inv show ?thesis by simp
  next
    case True
    with rest obtain k cols1 map_cols1 where
      ra: "(if only_child \<and> parent_has_job \<and> nproc > 1
            then rearrange_non_pivot_cols symbolic pivot_supercol col_b_size (fr_size t)
                   (realloc (fr_ind t) (col_b_size + fr_size t)) (fr_map_cols t)
            else Inr (0, realloc (fr_ind t) (col_b_size + fr_size t), fr_map_cols t))
           = Inr (k, cols1, map_cols1)"
      and res: "ru_size = fr_size t" "fb_pivot_cols fb1 = cols1" "map_cols2 = map_cols1"
      by (auto simp: Let_def bnd_Inr_iff split: if_splits prod.splits)
    have "mc_inv ?len col_b_size 0 (fr_size t) cols1 map_cols1"
    proof (cases "only_child \<and> parent_has_job \<and> nproc > 1")
      case True
      with ra show ?thesis using rearrange_non_pivot_cols_inv[OF inv] by simp
    next
      case False
      with ra inv show ?thesis by auto
    qed
    then show ?thesis by (simp add: res)
  qed
qed

lemma fs_finish_inv:
  assumes run: "fs_finish symbolic pivot_supercol fb col_b_size ru_size st map_cols
                = Inr (st', map_cols')"
    and inv: "mc_inv len col_b_size 0 ru_size (fb_pivot_cols fb) map_cols"
  shows "all_minus1 map_cols' \<and> length map_cols' = len"
proof -
  from run have "for_loop 0 ru_size (fs_clear_step (fb_pivot_cols fb) col_b_size) map_cols
                 = Inr map_cols'"
    unfolding fs_finish_def by (auto simp: Let_def bnd_Inr_iff)
  from fs_clear_inv[OF this inv] show ?thesis .
qed

text \<open>
  Claim C9.  Whenever \<open>factorize_supercolumn\<close> is entered with a column map whose cells are all
  -1 and returns, the column map it leaves has the same length and its cells are all -1 again:
  every cell written by \<open>focus_rows\<close> (and moved by \<open>rearrange_non_pivot_cols\<close>) belongs to a
  non-pivot column of the block and is reset by the last loop.  This holds for every number of
  processors, every symbolic structure, matrix and context, and whatever the L portion and the
  assembly of the contribution block do to the context.
\<close>

theorem factorize_supercolumn_clears_map_cols:
  assumes run: "factorize_supercolumn nproc symbolic At l_portion assemble pivot_supercol st
                  map_cols = Inr (st', map_cols')"
    and init: "all_minus1 map_cols"
  shows "all_minus1 map_cols' \<and> length map_cols' = length map_cols"
proof -
  from run obtain only_child parent_has_job st1 factor_block where
    rest: "(if \<not> fb_valid factor_block then Inr (st1, map_cols)
     else
     bnd (rd (u_size symbolic) pivot_supercol) (\<lambda>mu_size.
     bnd (rd (supercolumn_size symbolic) pivot_supercol) (\<lambda>col_b_size.
     bnd (if fb_l_size factor_block > 0
          then fs_u_portion nproc symbolic At assemble pivot_supercol factor_block mu_size
                 col_b_size only_child parent_has_job st1 map_cols
          else Inr (0, factor_block, st1, map_cols)) (\<lambda>(ru_size, factor_block1, st2, map_cols2).
     fs_finish symbolic pivot_supercol factor_block1 col_b_size ru_size st2 map_cols2))))
     = Inr (st', map_cols')"
    unfolding factorize_supercolumn_def bnd_Inr_iff by blast
  show ?thesis
  proof (cases "fb_valid factor_block")
    case False
    with rest init show ?thesis by simp
  next
    case True
    with rest obtain mu_size col_b_size ru_size fb1 st2 map_cols2 where
      up: "(if fb_l_size factor_block > 0
          then fs_u_portion nproc symbolic At assemble pivot_supercol factor_block mu_size
                 col_b_size only_child parent_has_job st1 map_cols
          else Inr (0, factor_block, st1, map_cols)) = Inr (ru_size, fb1, st2, map_cols2)"
      and fin: "fs_finish symbolic pivot_supercol fb1 col_b_size ru_size st2 map_cols2
                = Inr (st', map_cols')"
      by (auto simp: bnd_Inr_iff split: prod.splits)
    have "mc_inv (length map_cols) col_b_size 0 ru_size (fb_pivot_cols fb1) map_cols2"
    proof (cases "fb_l_size factor_block > 0")
      case True
      with up show ?thesis using fs_u_portion_inv init by simp
    next
      case False
      with up have "ru_size = 0" "map_cols2 = map_cols" by simp_all
      then show ?thesis using mc_inv_init[OF init] by simp
    qed
    from fs_finish_inv[OF fin this] show ?thesis .
  qed
qed

text \<open>The first supercolumn of the arrow matrix: \<open>focus_rows\<close> finds the non-pivot column 20
  and writes \<open>map_cols[20] = 0\<close>; on return the map is all -1 again.\<close>

theorem factorize_supercolumn_clears_map_cols_witness:
  "all_minus1 (filled 21 (- 1)) \<and>
   (case fs_u_portion 1 arrow21_symbolic_result arrow21_transpose assemble_none 0 arrow21_block0
           2 1 False False arrow21_state0 (filled 21 (- 1)) of
      Inl e \<Rightarrow> False
    | Inr (ru_size, fb, st, map_cols) \<Rightarrow> ru_size = 1 \<and> rd map_cols 20 = Inr 0) \<and>
   (case factorize_supercolumn 1 arrow21_symbolic_result arrow21_transpose l_portion_id
           assemble_none 0 arrow21_state0 (filled 21 (- 1)) of
      Inl e \<Rightarrow> False
    | Inr (st, map_cols) \<Rightarrow> all_minus1 map_cols \<and> length map_cols = 21)"
proof -
  have a: "all_minus1 (filled 21 (- 1))"
    by code_simp
  have b: "case fs_u_portion 1 arrow21_symbolic_result arrow21_transpose assemble_none 0
                  arrow21_block0 2 1 False False arrow21_state0 (filled 21 (- 1)) of
             Inl e \<Rightarrow> False
           | Inr (ru_size, fb, st, map_cols) \<Rightarrow> ru_size = 1 \<and> rd map_cols 20 = Inr 0"
    by code_simp
  have c: "case factorize_supercolumn 1 arrow21_symbolic_result arrow21_transpose l_portion_id
                  assemble_none 0 arrow21_state0 (filled 21 (- 1)) of
             Inl e \<Rightarrow> False | Inr r \<Rightarrow> True"
    by code_simp
  then obtain st map_cols where
    run: "factorize_supercolumn 1 arrow21_symbolic_result arrow21_transpose l_portion_id
            assemble_none 0 arrow21_state0 (filled 21 (- 1)) = Inr (st, map_cols)"
    by (auto split: sum.splits)
  have l: "length (filled 21 (- 1)) = 21"
    by (simp add: filled_def)
  from factorize_supercolumn_clears_map_cols[OF run a] l
  have "all_minus1 map_cols \<and> length map_cols = 21" by simp
  with run a b show ?thesis by simp
qed

section \<open>The arrays written by the solve\<close>




lemma hp_frame_mono: "hp_frame V h h' \<Longrightarrow> V \<subseteq> W \<Longrightarrow> hp_frame W h h'"
  unfolding hp_frame_def by blast






lemma hp_frame_step:
  assumes "hp_frame W h0 h" and "hp_frame {a} h h'" and "a \<in> W"
  shows "hp_frame W h0 h'"
  using assms unfolding hp_frame_def by auto









section \<open>The valid flags and the result of the numeric factorization\<close>



lemma set_block_frame:
  assumes "get_block bs i = Inr fb" and "set_block bs i fb' = Inr bs'"
    and "fb_valid fb' = fb_valid fb"
  shows "blocks_frame i bs bs'"
  using assms
  by (auto simp: get_block_def set_block_def blocks_frame_def split: if_splits option.splits)


















lemma zero1_symbolic_run:
  "taucs_ccs_factor_lu_symbolic all_allocated zero1 (from_list [0]) = Some (Inr zero1_symbolic)"
  by code_simp



section \<open>The diagonal example\<close>

text \<open>
  Claim C4, as amended.  For \<open>A = diag(2, 3, 5, 7)\<close> with the column order \<open>[0, 1, 2, 3]\<close> the
  symbolic factorization returns one supercolumn, of four columns: every column is a root of
  the column elimination tree, a root never closes a cluster in the relaxation pass, and the
  four one-column supercolumns end in one cluster.
\<close>

theorem diag4_symbolic_one_supercolumn:
  "taucs_ccs_factor_lu_symbolic all_allocated diag4 (from_list [0, 1, 2, 3]) =
     Some (Inr
       \<lparr> sym_n = 4,
         columns = [Some 0, Some 1, Some 2, Some 3, None],
         number_supercolumns = 1,
         start_supercolumn = [Some 0, None, None, None, None],
         end_supercolumn = [Some 3, None, None, None, None],
         supercolumn_size = [Some 4, Some 1, Some 1, Some 1, None],
         supercolumn_covered_columns = [Some 4, None, None, None, None],
         l_size = [Some 4, None, None, None, None],
         u_size = [Some 4, None, None, None, None],
         etree =
           \<lparr> first_root = 0,
             parent = [Some (- 1), Some (- 1), Some (- 1), Some (- 1), None],
             first_child = [Some (- 1), Some (- 1), Some (- 1), Some (- 1), Some 0],
             next_child = [Some (- 1), Some 2, Some 3, Some (- 1), None],
             first_desc_index = [Some (- 1), None, None, None, None],
             last_desc_index = [Some (- 1), None, None, None, None] \<rparr> \<rparr>)"
  by code_simp

text \<open>Claim C4 as stated expects four supercolumns; the number returned is not four.\<close>

theorem diag4_symbolic_counterexample:
  "map_option (map_sum id number_supercolumns)
     (taucs_ccs_factor_lu_symbolic all_allocated diag4 (from_list [0, 1, 2, 3]))
   \<noteq> Some (Inr 4)"
  by code_simp

end
